theory Spec2Isabelle
  imports Complex_Main "HOL-Library.Word"
begin

section \<open>UX Audio Router: routing store, jitter ring buffer, handshake decoder, scheduler\<close>

text \<open>
  A shallow embedding of the JavaScript sources \<^verbatim>\<open>js/store.js\<close>,
  \<^verbatim>\<open>js/audio.js\<close> and \<^verbatim>\<open>js/ipc.js\<close>.

  The sources hold several revisions of the store and of the engine. The store is the
  revision with a routing list per input and the target buffer setting. The engine is
  modelled in its two latest revisions: the one whose \<^verbatim>\<open>processDirectAudio\<close> schedules
  every received array at once, with its drift correction, and the one that pushes the
  received arrays into the ring buffer and drains it in \<^verbatim>\<open>scheduleAudio\<close>.

  Conventions of the embedding.
  \<^item> Entity ids and frame counts are JavaScript numbers that the program only ever uses as
    non-negative integers; they are \<open>nat\<close>.
  \<^item> Volumes, gains and times are JavaScript doubles; they are idealised as exact rationals
    (\<open>rat\<close>), so rounding is outside the model. A configuration number that may be
    \<^verbatim>\<open>undefined\<close> is a \<open>rat option\<close>.
  \<^item> An audio sample is the bit pattern of a 32-bit float, a \<open>32 word\<close>. An assignment
    from one typed array to another passes the sample through a JavaScript Number, which
    keeps every bit pattern but those of the NaNs.
  \<^item> A Node \<^verbatim>\<open>Buffer\<close> is its bytes together with its byte offset, which the
    constructor of a \<^verbatim>\<open>Float32Array\<close> checks.
  \<^item> Mutation is explicit state passing; a thrown exception is a value \<open>Inl e\<close>.
  \<^item> Persisting the settings (\<^verbatim>\<open>save()\<close>), event emission and the Web Audio graph
    are effects outside the model, except for the values the program hands to them
    (gain targets, start times of scheduled sources).
\<close>

subsection \<open>The routing store (\<^verbatim>\<open>js/store.js\<close>)\<close>

record input_data =
  in_id :: nat
  in_deviceId :: string
  in_volume :: rat
  in_isMuted :: bool
  routing :: "nat list"

record eq_values =
  high :: rat
  mid :: rat
  low :: rat

record output_data =
  out_id :: nat
  selectedDeviceId :: string
  out_volume :: rat
  out_isMuted :: bool
  eqValues :: eq_values

text \<open>
  \<^verbatim>\<open>store.data\<close> together with the run-time set \<^verbatim>\<open>directRoutingSet\<close>.
\<close>

record store =
  inputs :: "input_data list"
  directGain :: rat
  directMuted :: bool
  directBuffer :: "rat option"
  outputs :: "output_data list"
  directRoutingSet :: "nat set"

text \<open>The store as the constructor leaves it.\<close>

definition Store_init :: store where
  "Store_init = \<lparr>inputs = [], directGain = 1, directMuted = False,
     directBuffer = Some 0.1, outputs = [], directRoutingSet = {}\<rparr>"

text \<open>
  \<^verbatim>\<open>Array.prototype.findIndex\<close>: the index of the first element that satisfies the
  predicate; \<open>None\<close> stands for the result \<^verbatim>\<open>-1\<close>.
\<close>

fun findIndex :: "('a \<Rightarrow> bool) \<Rightarrow> 'a list \<Rightarrow> nat option" where
  "findIndex P [] = None"
| "findIndex P (x # xs) =
     (if P x then Some 0 else map_option Suc (findIndex P xs))"

text \<open>\<^verbatim>\<open>list.splice(idx, 1)\<close>: the list without its element at \<open>idx\<close>.\<close>

definition splice1 :: "nat \<Rightarrow> 'a list \<Rightarrow> 'a list" where
  "splice1 idx xs = take idx xs @ drop (Suc idx) xs"

text \<open>
  \<^verbatim>\<open>getAvailableId(list)\<close>: the loop \<^verbatim>\<open>let id = 1; while (existingIds.has(id)) id++\<close>.
  The argument is the list of ids \<^verbatim>\<open>list.map(o => o.id)\<close> that the source turns into a
  set.
\<close>

function getAvailableId_loop :: "nat list \<Rightarrow> nat \<Rightarrow> nat" where
  "getAvailableId_loop existingIds i =
     (if i \<in> set existingIds then getAvailableId_loop existingIds (i + 1) else i)"
  by pat_completeness auto

termination
proof (relation "measure (\<lambda>(existingIds, i). Suc (Max (insert 0 (set existingIds))) - i)")
  show "wf (measure (\<lambda>(existingIds, i). Suc (Max (insert 0 (set existingIds))) - i))"
    by simp
next
  fix existingIds :: "nat list" and i :: nat
  assume "i \<in> set existingIds"
  then have "i \<le> Max (insert 0 (set existingIds))"
    by simp
  then show "((existingIds, i + 1), (existingIds, i))
      \<in> measure (\<lambda>(existingIds, i). Suc (Max (insert 0 (set existingIds))) - i)"
    by simp
qed

declare getAvailableId_loop.simps [simp del]

definition getAvailableId :: "nat list \<Rightarrow> nat" where
  "getAvailableId existingIds = getAvailableId_loop existingIds 1"

definition addInput :: "store \<Rightarrow> nat \<times> store" where
  "addInput s =
     (let i = getAvailableId (map in_id (inputs s));
          pushed = inputs s @ [\<lparr>in_id = i, in_deviceId = ''default'', in_volume = 1,
                                in_isMuted = False, routing = []\<rparr>]
      in (i, s\<lparr>inputs := sort_key in_id pushed\<rparr>))"

definition removeInput :: "nat \<Rightarrow> store \<Rightarrow> store" where
  "removeInput i s =
     (case findIndex (\<lambda>inp. in_id inp = i) (inputs s) of
        None \<Rightarrow> s
      | Some idx \<Rightarrow> s\<lparr>inputs := splice1 idx (inputs s)\<rparr>)"

definition addOutput :: "store \<Rightarrow> nat \<times> store" where
  "addOutput s =
     (let i = getAvailableId (map out_id (outputs s));
          pushed = outputs s @ [\<lparr>out_id = i, selectedDeviceId = [], out_volume = 1,
                                 out_isMuted = False,
                                 eqValues = \<lparr>high = 0, mid = 0, low = 0\<rparr>\<rparr>]
      in (i, s\<lparr>outputs := sort_key out_id pushed\<rparr>))"

definition removeOutput :: "nat \<Rightarrow> store \<Rightarrow> store" where
  "removeOutput i s =
     (case findIndex (\<lambda>out. out_id out = i) (outputs s) of
        None \<Rightarrow> s
      | Some idx \<Rightarrow>
          s\<lparr>outputs := splice1 idx (outputs s),
            directRoutingSet := directRoutingSet s - {i},
            inputs := map (\<lambda>inp. inp\<lparr>routing := filter (\<lambda>rId. rId \<noteq> i) (routing inp)\<rparr>)
                        (inputs s)\<rparr>)"

text \<open>
  \<^verbatim>\<open>toggleRouting(type, inputId, outputId)\<close>: the type \<^verbatim>\<open>'direct'\<close> selects the
  direct routing set, any other type a hardware input (\<open>inputId = None\<close> is the
  \<^verbatim>\<open>null\<close> the callers pass for the direct input). On a hardware input the route is
  removed at its first index or pushed at the end; an unknown input id changes nothing.
\<close>

datatype route_type = Direct | Hardware

definition toggleRouting :: "route_type \<Rightarrow> nat option \<Rightarrow> nat \<Rightarrow> store \<Rightarrow> store" where
  "toggleRouting type inputId outputId s =
     (if type = Direct then
        (if outputId \<in> directRoutingSet s
         then s\<lparr>directRoutingSet := directRoutingSet s - {outputId}\<rparr>
         else s\<lparr>directRoutingSet := insert outputId (directRoutingSet s)\<rparr>)
      else
        (case findIndex (\<lambda>inp. Some (in_id inp) = inputId) (inputs s) of
           None \<Rightarrow> s
         | Some k \<Rightarrow>
             (let inp = inputs s ! k;
                  r = (case findIndex (\<lambda>rId. rId = outputId) (routing inp) of
                         Some idx \<Rightarrow> splice1 idx (routing inp)
                       | None \<Rightarrow> routing inp @ [outputId])
              in s\<lparr>inputs := (inputs s)[k := inp\<lparr>routing := r\<rparr>]\<rparr>)))"

text \<open>The ids of the live outputs, and the sequences of output operations.\<close>

definition output_ids :: "store \<Rightarrow> nat list" where
  "output_ids s = map out_id (outputs s)"

definition input_ids :: "store \<Rightarrow> nat list" where
  "input_ids s = map in_id (inputs s)"

datatype output_op = AddOutput | RemoveOutput nat

fun apply_output_op :: "output_op \<Rightarrow> store \<Rightarrow> store" where
  "apply_output_op AddOutput s = snd (addOutput s)"
| "apply_output_op (RemoveOutput i) s = removeOutput i s"

fun run_output_ops :: "output_op list \<Rightarrow> store \<Rightarrow> store" where
  "run_output_ops [] s = s"
| "run_output_ops (op # ops) s = run_output_ops ops (apply_output_op op s)"

text \<open>
  The routing invariant of the data model: every output id referenced by the direct
  routing set or by an input's routing list is the id of a live output.
\<close>

definition routes_live :: "store \<Rightarrow> bool" where
  "routes_live s \<longleftrightarrow>
     directRoutingSet s \<subseteq> set (output_ids s) \<and>
     (\<forall>inp \<in> set (inputs s). set (routing inp) \<subseteq> set (output_ids s))"

subsection \<open>The jitter ring buffer (class \<^verbatim>\<open>RingBuffer\<close> of \<^verbatim>\<open>js/audio.js\<close>)\<close>

type_synonym sample = "32 word"

text \<open>
  Reading an array outside its range gives \<^verbatim>\<open>undefined\<close>, which a
  \<^verbatim>\<open>Float32Array\<close> stores as the quiet NaN. Writing a \<^verbatim>\<open>Float32Array\<close> outside
  its range is ignored, as a list update is.
\<close>

definition NaN32 :: sample where
  "NaN32 = 0x7FC00000"

definition sample_at :: "sample list \<Rightarrow> nat \<Rightarrow> sample" where
  "sample_at xs i = (if i < length xs then xs ! i else NaN32)"

text \<open>
  The assignments \<^verbatim>\<open>a[i] = b[j]\<close> of the program read an element as a JavaScript
  Number and store that Number in a \<^verbatim>\<open>Float32Array\<close>. Every 32-bit float that is not
  a NaN keeps its bits on this way. The bits of a NaN are left to the implementation by
  the language; the model takes what the conversion instructions of the processor do, as
  V8 uses them: the quiet bit is set and the other bits are kept, so the signalling NaN
  \<open>0x7F800001\<close> becomes \<open>0x7FC00001\<close>.
\<close>

unbundle bit_operations_syntax

definition is_NaN32 :: "sample \<Rightarrow> bool" where
  "is_NaN32 w \<longleftrightarrow> w AND 0x7F800000 = 0x7F800000 \<and> w AND 0x007FFFFF \<noteq> 0"

definition float32_via_number :: "sample \<Rightarrow> sample" where
  "float32_via_number w = (if is_NaN32 w then w OR 0x00400000 else w)"

definition copy_sample :: "sample list \<Rightarrow> nat \<Rightarrow> sample" where
  "copy_sample xs i = float32_via_number (sample_at xs i)"

record RingBuffer =
  rb_size :: nat
  channels :: nat
  buffers :: "sample list list"
  writePtr :: nat
  readPtr :: nat
  available :: nat

definition RingBuffer_new :: "nat \<Rightarrow> nat \<Rightarrow> RingBuffer" where
  "RingBuffer_new sz chs =
     \<lparr>rb_size = sz, channels = chs, buffers = replicate chs (replicate sz 0),
      writePtr = 0, readPtr = 0, available = 0\<rparr>"

text \<open>
  One pass of the outer loop of \<^verbatim>\<open>push\<close>, for the frame index \<open>i\<close>: the inner loop
  writes the frame's samples of the first \<open>copyCh\<close> channels at the write cursor, then the
  write cursor advances and either the fill level grows or the read cursor advances.
\<close>

definition push_frame :: "sample list \<Rightarrow> nat \<Rightarrow> nat \<Rightarrow> RingBuffer \<Rightarrow> RingBuffer" where
  "push_frame floatArray inputChannels i rb =
     (let copyCh = min (channels rb) inputChannels;
          bufs = fold (\<lambda>ch bs. bs[ch := (bs ! ch)[writePtr rb :=
                         copy_sample floatArray (i * inputChannels + ch)]])
                   [0..<copyCh] (buffers rb);
          rb1 = rb\<lparr>buffers := bufs, writePtr := (writePtr rb + 1) mod rb_size rb\<rparr>
      in if available rb1 < rb_size rb1
         then rb1\<lparr>available := available rb1 + 1\<rparr>
         else rb1\<lparr>readPtr := (readPtr rb1 + 1) mod rb_size rb1\<rparr>)"

text \<open>
  The number of passes of the loop \<^verbatim>\<open>for (i = 0; i < samplesPerCh; i++)\<close>, where
  \<^verbatim>\<open>samplesPerCh = floatArray.length / inputChannels\<close> is a quotient of doubles: the
  quotient rounded up.
\<close>

definition frame_count :: "sample list \<Rightarrow> nat \<Rightarrow> nat" where
  "frame_count floatArray inputChannels =
     (length floatArray + inputChannels - 1) div inputChannels"

text \<open>
  \<^verbatim>\<open>push(floatArray, inputChannels)\<close>. With \<open>inputChannels = 0\<close> the bound of the loop
  is \<^verbatim>\<open>Infinity\<close> for a non-empty array, so the call never returns (\<open>None\<close>), and
  \<^verbatim>\<open>NaN\<close> for an empty one, so the loop body never runs.
\<close>

definition push :: "sample list \<Rightarrow> nat \<Rightarrow> RingBuffer \<Rightarrow> RingBuffer option" where
  "push floatArray inputChannels rb =
     (if inputChannels = 0 then (if floatArray = [] then Some rb else None)
      else Some (fold (push_frame floatArray inputChannels)
                   [0..<frame_count floatArray inputChannels] rb))"

datatype js_error = TypeError | RangeError

text \<open>
  One pass of the outer loop of \<^verbatim>\<open>pop\<close>, for the frame index \<open>i\<close>, on the output
  buffers and the ring buffer.
\<close>

definition pop_frame ::
    "nat \<Rightarrow> sample list list \<times> RingBuffer \<Rightarrow> sample list list \<times> RingBuffer" where
  "pop_frame i = (\<lambda>(outs, rb).
     (fold (\<lambda>ch os. os[ch := (os ! ch)[i := copy_sample (buffers rb ! ch) (readPtr rb)]])
        [0..<channels rb] outs,
      rb\<lparr>readPtr := (readPtr rb + 1) mod rb_size rb\<rparr>))"

text \<open>
  \<^verbatim>\<open>pop(outputBuffers, count)\<close> returns its boolean, the output buffers and the ring
  buffer. When the loops run and \<^verbatim>\<open>outputBuffers\<close> has fewer arrays than the ring buffer
  has channels, the first pass throws a \<^verbatim>\<open>TypeError\<close> on the missing array, before any
  cursor has moved; the model decides this before the loop.
\<close>

definition pop ::
    "sample list list \<Rightarrow> nat \<Rightarrow> RingBuffer
       \<Rightarrow> js_error + (bool \<times> sample list list \<times> RingBuffer)" where
  "pop outputBuffers count rb =
     (if available rb < count then Inr (False, outputBuffers, rb)
      else if 0 < count \<and> length outputBuffers < channels rb then Inl TypeError
      else (case fold pop_frame [0..<count] (outputBuffers, rb) of
              (outs, rb1) \<Rightarrow> Inr (True, outs, rb1\<lparr>available := available rb1 - count\<rparr>)))"

definition clear :: "RingBuffer \<Rightarrow> RingBuffer" where
  "clear rb = rb\<lparr>readPtr := 0, writePtr := 0, available := 0\<rparr>"

text \<open>
  The invariant of a ring buffer made by the constructor with a positive size, and the
  samples of a channel that are stored for reading, oldest first.
\<close>

definition rb_inv :: "RingBuffer \<Rightarrow> bool" where
  "rb_inv rb \<longleftrightarrow>
     0 < rb_size rb \<and> length (buffers rb) = channels rb \<and>
     (\<forall>b \<in> set (buffers rb). length b = rb_size rb) \<and>
     readPtr rb < rb_size rb \<and> available rb \<le> rb_size rb \<and>
     writePtr rb = (readPtr rb + available rb) mod rb_size rb"

definition stored :: "RingBuffer \<Rightarrow> nat \<Rightarrow> sample list" where
  "stored rb ch =
     map (\<lambda>k. (buffers rb ! ch) ! ((readPtr rb + k) mod rb_size rb)) [0..<available rb]"

text \<open>The samples of channel \<open>ch\<close> in the frames of an interleaved array, in order.\<close>

definition channel_samples :: "sample list \<Rightarrow> nat \<Rightarrow> nat \<Rightarrow> sample list" where
  "channel_samples floatArray inputChannels ch =
     map (\<lambda>i. sample_at floatArray (i * inputChannels + ch))
       [0..<frame_count floatArray inputChannels]"

definition lastn :: "nat \<Rightarrow> 'a list \<Rightarrow> 'a list" where
  "lastn n xs = drop (length xs - n) xs"




text \<open>Pushing a sequence of arrays, each with its channel count.\<close>

fun push_all :: "(sample list \<times> nat) list \<Rightarrow> RingBuffer \<Rightarrow> RingBuffer option" where
  "push_all [] rb = Some rb"
| "push_all ((floatArray, inputChannels) # rest) rb =
     (case push floatArray inputChannels rb of
        None \<Rightarrow> None
      | Some rb' \<Rightarrow> push_all rest rb')"

subsection \<open>The handshake decoder (class \<^verbatim>\<open>DirectServer\<close> of \<^verbatim>\<open>js/ipc.js\<close>)\<close>

type_synonym byte = "8 word"

text \<open>
  A Node \<^verbatim>\<open>Buffer\<close> is a window into an \<^verbatim>\<open>ArrayBuffer\<close>: its bytes and the offset
  of its first byte (\<^verbatim>\<open>byteOffset\<close>). A slice is a window into the same
  \<^verbatim>\<open>ArrayBuffer\<close>, so it moves the offset. \<^verbatim>\<open>Buffer.concat\<close> copies the bytes into a
  new allocation; Node puts its allocations at offsets that are multiples of 8, and the
  model takes the offset 0.
\<close>

record node_buffer =
  byteOffset :: nat
  bytes :: "byte list"

definition Buffer_alloc0 :: node_buffer where
  "Buffer_alloc0 = \<lparr>byteOffset = 0, bytes = []\<rparr>"

definition Buffer_concat :: "node_buffer \<Rightarrow> node_buffer \<Rightarrow> node_buffer" where
  "Buffer_concat a b = \<lparr>byteOffset = 0, bytes = bytes a @ bytes b\<rparr>"

text \<open>\<^verbatim>\<open>buf.slice(start)\<close>, \<^verbatim>\<open>buf.slice(-n)\<close> and \<^verbatim>\<open>buf.slice(0, end)\<close>.\<close>

definition slice_from :: "nat \<Rightarrow> node_buffer \<Rightarrow> node_buffer" where
  "slice_from start b =
     (let k = min start (length (bytes b))
      in \<lparr>byteOffset = byteOffset b + k, bytes = drop k (bytes b)\<rparr>)"

definition slice_last :: "nat \<Rightarrow> node_buffer \<Rightarrow> node_buffer" where
  "slice_last n b = slice_from (length (bytes b) - n) b"

definition slice_to :: "nat \<Rightarrow> node_buffer \<Rightarrow> node_buffer" where
  "slice_to end b = b\<lparr>bytes := take end (bytes b)\<rparr>"

text \<open>
  The decoder's fields, and what it hands to its collaborators: whether
  \<^verbatim>\<open>socket.destroy()\<close> was called, the \<^verbatim>\<open>reportStatus(connected, rate)\<close> calls and the
  \<^verbatim>\<open>audio.processDirectAudio(floatArray, sampleRate)\<close> calls, oldest first.
\<close>

record DirectServer =
  isHeaderReceived :: bool
  headerBuffer :: node_buffer
  sampleRate :: nat
  socketDestroyed :: bool
  statusReports :: "(bool \<times> nat option) list"
  audioCalls :: "(sample list \<times> nat) list"

definition DirectServer_init :: DirectServer where
  "DirectServer_init = \<lparr>isHeaderReceived = False, headerBuffer = Buffer_alloc0,
     sampleRate = 44100, socketDestroyed = False, statusReports = [], audioCalls = []\<rparr>"

text \<open>The connection callback of \<^verbatim>\<open>start()\<close>, before any data arrives.\<close>

definition on_connection :: "DirectServer \<Rightarrow> DirectServer" where
  "on_connection d = d\<lparr>isHeaderReceived := False, headerBuffer := Buffer_alloc0,
     socketDestroyed := False, statusReports := statusReports d @ [(False, None)]\<rparr>"

text \<open>The bytes of the literal \<^verbatim>\<open>'UXD1'\<close>.\<close>

definition UXD1 :: "byte list" where
  "UXD1 = [0x55, 0x58, 0x44, 0x31]"

text \<open>\<^verbatim>\<open>buf.readUInt32LE(offset)\<close> of Node, on a buffer that has the four bytes.\<close>

definition readUInt32LE :: "byte list \<Rightarrow> nat \<Rightarrow> nat" where
  "readUInt32LE buf offset =
     unat (buf ! offset) + unat (buf ! (offset + 1)) * 2 ^ 8 +
     unat (buf ! (offset + 2)) * 2 ^ 16 + unat (buf ! (offset + 3)) * 2 ^ 24"

text \<open>
  The samples that \<^verbatim>\<open>new Float32Array(buffer.buffer, buffer.byteOffset, n)\<close> shows on a
  little-endian machine: every four bytes are one sample.
\<close>

fun float32_array :: "byte list \<Rightarrow> sample list" where
  "float32_array (b0 # b1 # b2 # b3 # rest) =
     word_of_nat (unat b0 + unat b1 * 2 ^ 8 + unat b2 * 2 ^ 16 + unat b3 * 2 ^ 24)
       # float32_array rest"
| "float32_array rest = []"

text \<open>
  \<^verbatim>\<open>handleAudioData(buffer)\<close>. The constructor of the \<^verbatim>\<open>Float32Array\<close> throws a
  \<^verbatim>\<open>RangeError\<close> when the byte offset of the buffer is not a multiple of 4. A call that
  throws gives the error and the decoder as the throw leaves it.
\<close>

definition handleAudioData ::
    "node_buffer \<Rightarrow> DirectServer \<Rightarrow> js_error \<times> DirectServer + DirectServer" where
  "handleAudioData buffer d =
     (let aligned = (if length (bytes buffer) mod 8 \<noteq> 0
                     then slice_to (length (bytes buffer) div 8 * 8) buffer else buffer)
      in if length (bytes aligned) = 0 then Inr d
         else if byteOffset aligned mod 4 \<noteq> 0 then Inl (RangeError, d)
         else Inr (d\<lparr>audioCalls := audioCalls d @
                      [(float32_array (bytes aligned), sampleRate d)]\<rparr>))"

text \<open>
  The accumulation of the header bytes: the new bytes are appended, and of more than 1024
  bytes only the last 1024 are kept.
\<close>

definition accumulate :: "node_buffer \<Rightarrow> node_buffer \<Rightarrow> node_buffer" where
  "accumulate header buffer =
     (let joined = Buffer_concat header buffer
      in if 1024 < length (bytes joined) then slice_last 1024 joined else joined)"

text \<open>
  \<^verbatim>\<open>handleHandshake(buffer, socket)\<close>. The magic is compared as a string decoded from
  the first four bytes; a decoded string equals \<^verbatim>\<open>'UXD1'\<close> exactly when the four bytes
  are those of the literal, so the model compares bytes. When the streaming path throws,
  the accumulation buffer is not emptied.
\<close>

definition handleHandshake ::
    "node_buffer \<Rightarrow> DirectServer \<Rightarrow> js_error \<times> DirectServer + DirectServer" where
  "handleHandshake buffer d =
     (let d1 = d\<lparr>headerBuffer := accumulate (headerBuffer d) buffer\<rparr>
      in if 8 \<le> length (bytes (headerBuffer d1)) then
           (let magic = take 4 (bytes (headerBuffer d1))
            in if magic = UXD1 then
                 (let rate = readUInt32LE (bytes (headerBuffer d1)) 4;
                      d3 = d1\<lparr>sampleRate := rate, isHeaderReceived := True,
                             statusReports := statusReports d1 @ [(True, Some rate)]\<rparr>;
                      remaining = slice_from 8 (headerBuffer d1)
                  in if 0 < length (bytes remaining) then
                       (case handleAudioData remaining d3 of
                          Inl thrown \<Rightarrow> Inl thrown
                        | Inr d4 \<Rightarrow> Inr (d4\<lparr>headerBuffer := Buffer_alloc0\<rparr>))
                     else Inr (d3\<lparr>headerBuffer := Buffer_alloc0\<rparr>))
               else Inr (d1\<lparr>socketDestroyed := True, headerBuffer := Buffer_alloc0\<rparr>))
         else Inr d1)"

text \<open>
  The \<^verbatim>\<open>'data'\<close> callback of the socket; a destroyed socket emits no data any more.
\<close>

definition on_data ::
    "node_buffer \<Rightarrow> DirectServer \<Rightarrow> js_error \<times> DirectServer + DirectServer" where
  "on_data buffer d =
     (if socketDestroyed d then Inr d
      else if \<not> isHeaderReceived d then handleHandshake buffer d
      else handleAudioData buffer d)"

text \<open>
  A first data event with a valid header for 48000 Hz followed by 1024 bytes of audio, and
  one with a stray byte before the header and 1016 bytes of audio after it.
\<close>

definition header_and_audio :: node_buffer where
  "header_and_audio =
     \<lparr>byteOffset = 0, bytes = UXD1 @ [0x80, 0xBB, 0x00, 0x00] @ replicate 1024 0\<rparr>"

definition stray_byte_and_header :: node_buffer where
  "stray_byte_and_header =
     \<lparr>byteOffset = 0, bytes = [0x00] @ UXD1 @ [0x80, 0xBB, 0x00, 0x00] @ replicate 1016 0\<rparr>"

subsection \<open>The audio engine (class \<^verbatim>\<open>AudioEngine\<close> of \<^verbatim>\<open>js/audio.js\<close>)\<close>

text \<open>
  An audio parameter of the Web Audio graph: its value and the last
  \<^verbatim>\<open>setTargetAtTime(target, startTime, timeConstant)\<close> it received.
\<close>

record audio_param =
  param_value :: rat
  automation :: "(rat \<times> rat \<times> rat) option"

definition setTargetAtTime :: "rat \<Rightarrow> rat \<Rightarrow> rat \<Rightarrow> audio_param \<Rightarrow> audio_param" where
  "setTargetAtTime target startTime timeConstant p =
     p\<lparr>automation := Some (target, startTime, timeConstant)\<rparr>"

definition target_of :: "audio_param \<Rightarrow> rat option" where
  "target_of p = map_option fst (automation p)"

text \<open>
  One entry of \<^verbatim>\<open>strips\<close>, the nodes of an output: the reading of its context's clock
  (\<^verbatim>\<open>ctx.currentTime\<close>, which the model holds fixed during a call), the gain
  parameters of the hardware inputs by input id, the gain parameter of the direct input,
  the playback cursor, and the buffer sources started so far, each with its start time
  and its channel data. The Web Audio calls are taken to succeed.
\<close>

record strip =
  ctx_currentTime :: rat
  hwInputGains :: "(nat \<times> audio_param) list"
  strip_directGain :: audio_param
  nextAudioTime :: rat
  started :: "(rat \<times> sample list list) list"

record AudioEngine =
  isRunning :: bool
  strips :: "(nat \<times> strip) list"
  ringBuffer :: RingBuffer

text \<open>
  \<^verbatim>\<open>updateAllGains()\<close>, the same in every version of the engine with input strips:
  the body of the inner loop over the gain nodes of the hardware inputs, the body of the
  outer loop over the strips, and the whole pass.
\<close>

definition updateAllGains_input ::
    "store \<Rightarrow> nat \<Rightarrow> strip \<Rightarrow> nat \<Rightarrow> audio_param \<Rightarrow> audio_param" where
  "updateAllGains_input s outputId stripNodes inputId gainNode =
     (case find (\<lambda>i. in_id i = inputId) (inputs s) of
        None \<Rightarrow> gainNode
      | Some inputData \<Rightarrow>
          (let isRouted = outputId \<in> set (routing inputData);
               target = (if isRouted then in_volume inputData else 0)
           in setTargetAtTime target (ctx_currentTime stripNodes) 0.02 gainNode))"

definition updateAllGains_strip :: "store \<Rightarrow> nat \<Rightarrow> strip \<Rightarrow> strip" where
  "updateAllGains_strip s outputId stripNodes =
     stripNodes\<lparr>
       hwInputGains := map (\<lambda>(inputId, gainNode).
           (inputId, updateAllGains_input s outputId stripNodes inputId gainNode))
         (hwInputGains stripNodes),
       strip_directGain :=
         (let dirRouteMult = (if outputId \<in> directRoutingSet s then 1 else 0);
              dirMuteMult = (if directMuted s then 0 else 1);
              dirTarget = directGain s * dirRouteMult * dirMuteMult
          in setTargetAtTime dirTarget (ctx_currentTime stripNodes) 0.02
               (strip_directGain stripNodes))\<rparr>"

definition updateAllGains :: "store \<Rightarrow> AudioEngine \<Rightarrow> AudioEngine" where
  "updateAllGains s e =
     e\<lparr>strips := map (\<lambda>(outputId, stripNodes).
         (outputId, updateAllGains_strip s outputId stripNodes)) (strips e)\<rparr>"

text \<open>The targets that a gain recomputation has set, by output id and input id.\<close>

definition hw_target :: "AudioEngine \<Rightarrow> nat \<Rightarrow> nat \<Rightarrow> rat option" where
  "hw_target e outputId inputId =
     (case map_of (strips e) outputId of
        None \<Rightarrow> None
      | Some stripNodes \<Rightarrow>
          (case map_of (hwInputGains stripNodes) inputId of
             None \<Rightarrow> None
           | Some gainNode \<Rightarrow> target_of gainNode))"

definition direct_target :: "AudioEngine \<Rightarrow> nat \<Rightarrow> rat option" where
  "direct_target e outputId =
     (case map_of (strips e) outputId of
        None \<Rightarrow> None
      | Some stripNodes \<Rightarrow> target_of (strip_directGain stripNodes))"

text \<open>
  \<^verbatim>\<open>Math.max(store.data.directBuffer || 0.1, 0.05)\<close>: a missing or zero setting counts as
  0.1, and the result is at least 0.05.
\<close>

definition userBuffer_of :: "rat option \<Rightarrow> rat" where
  "userBuffer_of setting =
     max (case setting of None \<Rightarrow> 0.1 | Some b \<Rightarrow> if b = 0 then 0.1 else b) 0.05"

text \<open>
  The body of the loop over the strips in \<^verbatim>\<open>processDirectAudio(floatArray, sampleRate)\<close>
  of the engine that schedules every received array at once: the array is split into two
  channels, the cursor is corrected for underrun and then for overrun, the source is
  started at the cursor and the cursor advances by the duration of the buffer.
\<close>

definition processDirectAudio_strip :: "store \<Rightarrow> sample list \<Rightarrow> nat \<Rightarrow> strip \<Rightarrow> strip" where
  "processDirectAudio_strip s floatArray rate nodes =
     (let frameCount = length floatArray div 2;
          ch0 = map (\<lambda>i. copy_sample floatArray (i * 2)) [0..<frameCount];
          ch1 = map (\<lambda>i. copy_sample floatArray (i * 2 + 1)) [0..<frameCount];
          currentTime = ctx_currentTime nodes;
          userBuffer = userBuffer_of (directBuffer s);
          resetThreshold = userBuffer * 3 + 0.2;
          t1 = (if nextAudioTime nodes < currentTime
                then currentTime + userBuffer + 0.05 else nextAudioTime nodes);
          t2 = (if currentTime + resetThreshold < t1 then currentTime + userBuffer else t1)
      in nodes\<lparr>started := started nodes @ [(t2, [ch0, ch1])],
                nextAudioTime := t2 + of_nat frameCount / of_nat rate\<rparr>)"

definition processDirectAudio ::
    "store \<Rightarrow> sample list \<Rightarrow> nat \<Rightarrow> AudioEngine \<Rightarrow> AudioEngine" where
  "processDirectAudio s floatArray rate e =
     (if \<not> isRunning e then e
      else e\<lparr>strips := map (\<lambda>(outputId, nodes).
             (outputId, processDirectAudio_strip s floatArray rate nodes)) (strips e)\<rparr>)"

text \<open>
  The engine with the ring buffer: \<^verbatim>\<open>processDirectAudio(floatArray, sampleRate, channels)\<close>
  only pushes, and \<^verbatim>\<open>scheduleAudio()\<close> drains the ring buffer in chunks.
\<close>

definition processDirectAudio_push ::
    "sample list \<Rightarrow> nat \<Rightarrow> AudioEngine \<Rightarrow> AudioEngine option" where
  "processDirectAudio_push floatArray inputChannels e =
     (if \<not> isRunning e then Some e
      else map_option (\<lambda>rb. e\<lparr>ringBuffer := rb\<rparr>) (push floatArray inputChannels (ringBuffer e)))"

definition CHUNK_SIZE :: nat where
  "CHUNK_SIZE = 1024"

text \<open>
  \<^verbatim>\<open>if (store.data.directBuffer < 0.5) store.data.directBuffer += 0.001\<close>; a missing
  setting compares false.
\<close>

definition bump_directBuffer :: "store \<Rightarrow> store" where
  "bump_directBuffer s =
     (case directBuffer s of
        None \<Rightarrow> s
      | Some b \<Rightarrow> if b < 0.5 then s\<lparr>directBuffer := Some (b + 0.001)\<rparr> else s)"

text \<open>
  The body of the loop over the strips in \<^verbatim>\<open>scheduleAudio()\<close>, for one popped chunk:
  the only correction is the one for underrun, which also changes the store.
\<close>

definition scheduleAudio_strip ::
    "rat \<Rightarrow> sample list list \<Rightarrow> strip \<Rightarrow> store \<Rightarrow> strip \<times> store" where
  "scheduleAudio_strip userBufferSec tempBuffers nodes s =
     (let underrun = nextAudioTime nodes < ctx_currentTime nodes;
          t = (if underrun then ctx_currentTime nodes + userBufferSec else nextAudioTime nodes);
          s' = (if underrun then bump_directBuffer s else s)
      in (nodes\<lparr>started := started nodes @ [(t, take 2 tempBuffers)],
                 nextAudioTime := t + of_nat CHUNK_SIZE / 48000\<rparr>, s'))"







text \<open>
  The frames and the per-channel samples of a sequence of pushed arrays, and a ring
  buffer of size 3 that holds two frames, the second one wrapped around.
\<close>

definition total_frames :: "(sample list \<times> nat) list \<Rightarrow> nat" where
  "total_frames chunks = sum_list (map (\<lambda>(floatArray, inputChannels).
     frame_count floatArray inputChannels) chunks)"

definition pushed_samples :: "(sample list \<times> nat) list \<Rightarrow> nat \<Rightarrow> sample list" where
  "pushed_samples chunks ch = concat (map (\<lambda>(floatArray, inputChannels).
     channel_samples floatArray inputChannels ch) chunks)"

definition example_rb :: RingBuffer where
  "example_rb = \<lparr>rb_size = 3, channels = 2, buffers = [[1, 2, 3], [4, 5, 6]],
     writePtr = 1, readPtr = 2, available = 2\<rparr>"

text \<open>A store with one input routed to outputs 1 and 2, and three outputs.\<close>

definition example_store :: store where
  "example_store = Store_init\<lparr>
     inputs := [\<lparr>in_id = 1, in_deviceId = ''default'', in_volume = 1, in_isMuted = False,
                 routing = [1, 2]\<rparr>],
     outputs := [\<lparr>out_id = 1, selectedDeviceId = [], out_volume = 1, out_isMuted = False,
                   eqValues = \<lparr>high = 0, mid = 0, low = 0\<rparr>\<rparr>,
                 \<lparr>out_id = 2, selectedDeviceId = [], out_volume = 1, out_isMuted = False,
                   eqValues = \<lparr>high = 0, mid = 0, low = 0\<rparr>\<rparr>,
                 \<lparr>out_id = 3, selectedDeviceId = [], out_volume = 1, out_isMuted = False,
                   eqValues = \<lparr>high = 0, mid = 0, low = 0\<rparr>\<rparr>],
     directRoutingSet := {1, 2}\<rparr>"

text \<open>
  A strip by its clock reading and its cursor, with a gain node for input 1; a running
  engine with two such strips whose cursors are behind the clock and a ring buffer that
  holds one chunk; and a store whose only input is muted, at volume 0.8 and routed to
  output 1 only.
\<close>

definition example_strip :: "rat \<Rightarrow> rat \<Rightarrow> strip" where
  "example_strip now cursor =
     \<lparr>ctx_currentTime = now,
      hwInputGains = [(1, \<lparr>param_value = 0, automation = None\<rparr>)],
      strip_directGain = \<lparr>param_value = 0, automation = None\<rparr>,
      nextAudioTime = cursor, started = []\<rparr>"

definition example_engine :: AudioEngine where
  "example_engine =
     \<lparr>isRunning = True, strips = [(1, example_strip 1 0), (2, example_strip 1 0)],
      ringBuffer = \<lparr>rb_size = 2048, channels = 2, buffers = replicate 2 (replicate 2048 0),
                    writePtr = 1024, readPtr = 0, available = 1024\<rparr>\<rparr>"

definition muted_store :: store where
  "muted_store = example_store\<lparr>inputs :=
     [\<lparr>in_id = 1, in_deviceId = ''default'', in_volume = 0.8, in_isMuted = True,
       routing = [1]\<rparr>]\<rparr>"


section \<open>Properties\<close>

subsection \<open>Routing store\<close>

lemma findIndex_None: "findIndex P xs = None \<longleftrightarrow> (\<forall>x \<in> set xs. \<not> P x)"
  by (induction xs) auto

lemma findIndex_Some:
  "findIndex P xs = Some idx \<Longrightarrow> idx < length xs \<and> P (xs ! idx) \<and> (\<forall>j < idx. \<not> P (xs ! j))"
proof (induction xs arbitrary: idx)
  case Nil
  then show ?case by simp
next
  case (Cons x xs)
  show ?case
  proof (cases "P x")
    case True
    with Cons.prems show ?thesis by simp
  next
    case False
    with Cons.prems obtain k where k: "findIndex P xs = Some k" "idx = Suc k"
      by auto
    from Cons.IH [OF k(1)] False k(2) show ?thesis
      by (auto simp: nth_Cons split: nat.splits)
  qed
qed

lemma set_splice1_subset: "set (splice1 idx xs) \<subseteq> set xs"
  unfolding splice1_def by (auto dest: in_set_takeD in_set_dropD)

lemma map_splice1: "map f (splice1 idx xs) = splice1 idx (map f xs)"
  by (simp add: splice1_def take_map drop_map)

lemma distinct_splice1:
  assumes "distinct xs"
  shows "distinct (splice1 idx xs)"
proof -
  from assms have "distinct (take idx xs @ drop idx xs)"
    by simp
  then have disj: "set (take idx xs) \<inter> set (drop idx xs) = {}"
    by (simp only: distinct_append)
  have "set (drop (Suc idx) xs) \<subseteq> set (drop idx xs)"
    by (rule set_drop_subset_set_drop) simp
  with disj have "set (take idx xs) \<inter> set (drop (Suc idx) xs) = {}"
    by blast
  with assms show ?thesis
    unfolding splice1_def by simp
qed

lemma set_splice1_superset:
  assumes "idx < length xs"
  shows "set xs - {xs ! idx} \<subseteq> set (splice1 idx xs)"
proof -
  from assms have eq: "xs = take idx xs @ xs ! idx # drop (Suc idx) xs"
    by (rule id_take_nth_drop)
  have "set xs = set (take idx xs @ xs ! idx # drop (Suc idx) xs)"
    by (rule arg_cong [OF eq])
  then have "set xs = set (take idx xs) \<union> {xs ! idx} \<union> set (drop (Suc idx) xs)"
    by (simp only: set_append list.set) blast
  then show ?thesis
    unfolding splice1_def set_append by blast
qed

lemma nth_notin_splice1:
  assumes "distinct xs" and "idx < length xs"
  shows "xs ! idx \<notin> set (splice1 idx xs)"
proof -
  from assms(2) have eq: "xs = take idx xs @ xs ! idx # drop (Suc idx) xs"
    by (rule id_take_nth_drop)
  have "distinct (take idx xs @ xs ! idx # drop (Suc idx) xs)"
    using assms(1) by (subst eq [symmetric])
  then show ?thesis
    unfolding splice1_def by auto
qed

lemma getAvailableId_loop_spec:
  "i \<le> getAvailableId_loop ids i \<and> getAvailableId_loop ids i \<notin> set ids \<and>
   (\<forall>k. i \<le> k \<and> k < getAvailableId_loop ids i \<longrightarrow> k \<in> set ids)"
proof (induction ids i rule: getAvailableId_loop.induct)
  case (1 ids i)
  show ?case
  proof (cases "i \<in> set ids")
    case True
    have step: "getAvailableId_loop ids i = getAvailableId_loop ids (i + 1)"
      using True by (subst getAvailableId_loop.simps) simp
    have "k \<in> set ids" if "i \<le> k" "k < getAvailableId_loop ids (i + 1)" for k
    proof (cases "k = i")
      case True
      with \<open>i \<in> set ids\<close> show ?thesis by simp
    next
      case False
      with that "1" [OF True] show ?thesis by simp
    qed
    with "1" [OF True] show ?thesis
      unfolding step by auto
  next
    case False
    then have "getAvailableId_loop ids i = i"
      by (subst getAvailableId_loop.simps) simp
    with False show ?thesis by auto
  qed
qed

lemma getAvailableId_spec:
  "1 \<le> getAvailableId ids \<and> getAvailableId ids \<notin> set ids \<and>
   (\<forall>k. 1 \<le> k \<and> k < getAvailableId ids \<longrightarrow> k \<in> set ids)"
  unfolding getAvailableId_def by (rule getAvailableId_loop_spec)

lemma getAvailableId_le:
  assumes "1 \<le> i" and "i \<notin> set ids"
  shows "getAvailableId ids \<le> i"
proof (rule ccontr)
  assume "\<not> getAvailableId ids \<le> i"
  then have "i < getAvailableId ids" by simp
  with assms(1) getAvailableId_spec [of ids] have "i \<in> set ids" by blast
  with assms(2) show False by contradiction
qed

lemma distinct_map_sort_key: "distinct (map f (sort_key f xs)) = distinct (map f xs)"
  by (simp add: distinct_map)

lemma output_ids_addOutput:
  "set (output_ids (snd (addOutput s))) = insert (fst (addOutput s)) (set (output_ids s))"
  by (auto simp: addOutput_def output_ids_def Let_def)

lemma distinct_addOutput:
  assumes "distinct (output_ids s)"
  shows "distinct (output_ids (snd (addOutput s)))"
proof -
  have "getAvailableId (map out_id (outputs s)) \<notin> set (map out_id (outputs s))"
    using getAvailableId_spec by blast
  with assms show ?thesis
    by (simp add: addOutput_def output_ids_def Let_def distinct_map_sort_key)
qed

lemma findIndex_map: "findIndex P (map f xs) = findIndex (\<lambda>x. P (f x)) xs"
  by (induction xs) auto

lemma output_ids_removeOutput:
  "output_ids (removeOutput i s) =
     (case findIndex (\<lambda>x. x = i) (output_ids s) of None \<Rightarrow> output_ids s
      | Some idx \<Rightarrow> splice1 idx (output_ids s))"
  by (simp add: removeOutput_def output_ids_def findIndex_map map_splice1 split: option.splits)

lemma distinct_removeOutput:
  "distinct (output_ids s) \<Longrightarrow> distinct (output_ids (removeOutput i s))"
  by (simp add: output_ids_removeOutput distinct_splice1 split: option.splits)

lemma output_ids_removeOutput_superset:
  "set (output_ids s) - {i} \<subseteq> set (output_ids (removeOutput i s))"
proof (cases "findIndex (\<lambda>x. x = i) (output_ids s)")
  case None
  then show ?thesis by (auto simp: output_ids_removeOutput)
next
  case (Some idx)
  from findIndex_Some [OF Some] have "idx < length (output_ids s)" "output_ids s ! idx = i"
    by simp_all
  with set_splice1_superset [of idx "output_ids s"] Some show ?thesis
    by (simp add: output_ids_removeOutput)
qed

lemma removed_id_not_live:
  assumes "distinct (output_ids s)" and "i \<in> set (output_ids s)"
  shows "i \<notin> set (output_ids (removeOutput i s))"
proof (cases "findIndex (\<lambda>x. x = i) (output_ids s)")
  case None
  then have "\<forall>x \<in> set (output_ids s). x \<noteq> i"
    by (simp only: findIndex_None)
  with assms(2) show ?thesis by blast
next
  case (Some idx)
  from findIndex_Some [OF Some] have "idx < length (output_ids s)" "output_ids s ! idx = i"
    by simp_all
  with nth_notin_splice1 [OF assms(1), of idx] Some show ?thesis
    by (simp add: output_ids_removeOutput)
qed

lemma distinct_run_output_ops:
  "distinct (output_ids s) \<Longrightarrow> distinct (output_ids (run_output_ops ops s))"
proof (induction ops arbitrary: s)
  case Nil
  then show ?case by simp
next
  case (Cons op ops)
  have "distinct (output_ids (apply_output_op op s))"
    using Cons.prems by (cases op) (simp_all add: distinct_addOutput distinct_removeOutput)
  then show ?case
    using Cons.IH by simp
qed

lemma removeOutput_routes:
  assumes "i \<in> set (output_ids s)"
  shows "directRoutingSet (removeOutput i s) = directRoutingSet s - {i}"
    and "map routing (inputs (removeOutput i s)) = map (\<lambda>inp. filter (\<lambda>rId. rId \<noteq> i) (routing inp)) (inputs s)"
proof -
  from assms obtain idx where "findIndex (\<lambda>out. out_id out = i) (outputs s) = Some idx"
    by (cases "findIndex (\<lambda>out. out_id out = i) (outputs s)") (auto simp: findIndex_None output_ids_def)
  then show "directRoutingSet (removeOutput i s) = directRoutingSet s - {i}"
    and "map routing (inputs (removeOutput i s)) = map (\<lambda>inp. filter (\<lambda>rId. rId \<noteq> i) (routing inp)) (inputs s)"
    by (simp_all add: removeOutput_def)
qed

text \<open>
  Claim C8. After \<^verbatim>\<open>removeOutput(id)\<close> on a live output, the id is neither in the direct
  routing set nor in the routing list of any hardware input, and if every referenced
  output id was live before the call, every referenced output id is live after it.
\<close>

theorem removeOutput_no_dangling_route:
  assumes "i \<in> set (output_ids s)"
  shows "i \<notin> directRoutingSet (removeOutput i s) \<and>
         (\<forall>inp \<in> set (inputs (removeOutput i s)). i \<notin> set (routing inp)) \<and>
         (routes_live s \<longrightarrow> routes_live (removeOutput i s))"
proof (intro conjI impI)
  show "i \<notin> directRoutingSet (removeOutput i s)"
    by (simp add: removeOutput_routes(1) [OF assms])
  have r: "set (map routing (inputs (removeOutput i s))) =
      (\<lambda>inp. filter (\<lambda>rId. rId \<noteq> i) (routing inp)) ` set (inputs s)"
    by (simp add: removeOutput_routes(2) [OF assms])
  show "\<forall>inp \<in> set (inputs (removeOutput i s)). i \<notin> set (routing inp)"
  proof
    fix inp assume "inp \<in> set (inputs (removeOutput i s))"
    then have "routing inp \<in> set (map routing (inputs (removeOutput i s)))"
      by simp
    with r show "i \<notin> set (routing inp)" by auto
  qed
  assume live: "routes_live s"
  show "routes_live (removeOutput i s)"
    unfolding routes_live_def
  proof (intro conjI ballI)
    from live have "directRoutingSet s - {i} \<subseteq> set (output_ids s) - {i}"
      by (auto simp: routes_live_def)
    with output_ids_removeOutput_superset [of s i]
    show "directRoutingSet (removeOutput i s) \<subseteq> set (output_ids (removeOutput i s))"
      unfolding removeOutput_routes(1) [OF assms] by blast
  next
    fix inp assume "inp \<in> set (inputs (removeOutput i s))"
    then have "routing inp \<in> set (map routing (inputs (removeOutput i s)))"
      by simp
    with r obtain inp0 where inp0: "inp0 \<in> set (inputs s)"
        "routing inp = filter (\<lambda>rId. rId \<noteq> i) (routing inp0)"
      by auto
    from live inp0(1) have "set (routing inp0) \<subseteq> set (output_ids s)"
      by (simp add: routes_live_def)
    then have "set (routing inp) \<subseteq> set (output_ids s) - {i}"
      unfolding inp0(2) by auto
    with output_ids_removeOutput_superset [of s i]
    show "set (routing inp) \<subseteq> set (output_ids (removeOutput i s))"
      by blast
  qed
qed

theorem removeOutput_no_dangling_route_witness:
  "2 \<in> set (output_ids example_store) \<and> routes_live example_store \<and>
   2 \<notin> directRoutingSet (removeOutput 2 example_store) \<and>
   map routing (inputs (removeOutput 2 example_store)) = [[1]] \<and>
   output_ids (removeOutput 2 example_store) = [1, 3] \<and>
   routes_live (removeOutput 2 example_store)"
proof -
  have h: "2 \<in> set (output_ids example_store)"
    by (simp add: example_store_def output_ids_def Store_init_def)
  have l: "routes_live example_store"
    by (simp add: example_store_def output_ids_def Store_init_def routes_live_def)
  have e: "map routing (inputs (removeOutput 2 example_store)) = [[1]]"
          "output_ids (removeOutput 2 example_store) = [1, 3]"
    by (simp_all add: example_store_def output_ids_def Store_init_def removeOutput_def splice1_def)
  from removeOutput_no_dangling_route [OF h] h l e show ?thesis
    by simp
qed


text \<open>
  Claim C9. \<^verbatim>\<open>addOutput()\<close> and \<^verbatim>\<open>addInput()\<close> allocate the smallest positive
  integer that is not the id of a live entity of the same kind. Started from a store whose
  output ids are pairwise distinct (the constructor's empty store is one), after every
  sequence \<open>ops\<close> of \<^verbatim>\<open>addOutput\<close>/\<^verbatim>\<open>removeOutput\<close> calls the live output ids
  are pairwise distinct, the id \<open>n\<close> that the next \<^verbatim>\<open>addOutput\<close> allocates is positive,
  unused and has only used positive ids below it, and it is live afterwards. Removing a live
  output \<open>i\<close> frees its id: it is no longer live, the next \<^verbatim>\<open>addOutput\<close> allocates an
  id not above \<open>i\<close>, and exactly \<open>i\<close> when every smaller positive id is in use.
\<close>

theorem id_allocation_smallest_unused:
  assumes "distinct (output_ids s)"
  shows "(let t = run_output_ops ops s; n = fst (addOutput t) in
            distinct (output_ids t) \<and>
            1 \<le> n \<and> n \<notin> set (output_ids t) \<and>
            (\<forall>k. 1 \<le> k \<and> k < n \<longrightarrow> k \<in> set (output_ids t)) \<and>
            set (output_ids (snd (addOutput t))) = insert n (set (output_ids t)) \<and>
            (\<forall>i \<in> set (output_ids t). 1 \<le> i \<longrightarrow>
               i \<notin> set (output_ids (removeOutput i t)) \<and>
               fst (addOutput (removeOutput i t)) \<le> i \<and>
               ((\<forall>k. 1 \<le> k \<and> k < i \<longrightarrow> k \<in> set (output_ids t)) \<longrightarrow>
                  fst (addOutput (removeOutput i t)) = i))) \<and>
         (let m = fst (addInput s) in
            1 \<le> m \<and> m \<notin> set (input_ids s) \<and>
            (\<forall>k. 1 \<le> k \<and> k < m \<longrightarrow> k \<in> set (input_ids s)) \<and>
            set (input_ids (snd (addInput s))) = insert m (set (input_ids s)))"
proof -
  define t where "t = run_output_ops ops s"
  have dt: "distinct (output_ids t)"
    unfolding t_def using assms by (rule distinct_run_output_ops)
  have n: "fst (addOutput t) = getAvailableId (output_ids t)" for t
    by (simp add: addOutput_def output_ids_def Let_def)
  have m: "fst (addInput s) = getAvailableId (input_ids s)"
    by (simp add: addInput_def input_ids_def Let_def)
  have reuse: "i \<notin> set (output_ids (removeOutput i t)) \<and>
               fst (addOutput (removeOutput i t)) \<le> i \<and>
               ((\<forall>k. 1 \<le> k \<and> k < i \<longrightarrow> k \<in> set (output_ids t)) \<longrightarrow>
                  fst (addOutput (removeOutput i t)) = i)"
    if i: "i \<in> set (output_ids t)" "1 \<le> i" for i
  proof -
    have gone: "i \<notin> set (output_ids (removeOutput i t))"
      using dt i(1) by (rule removed_id_not_live)
    have le: "fst (addOutput (removeOutput i t)) \<le> i"
      unfolding n using i(2) gone by (rule getAvailableId_le)
    have "fst (addOutput (removeOutput i t)) = i"
      if below: "\<forall>k. 1 \<le> k \<and> k < i \<longrightarrow> k \<in> set (output_ids t)"
    proof (rule ccontr)
      assume "fst (addOutput (removeOutput i t)) \<noteq> i"
      with le have less: "fst (addOutput (removeOutput i t)) < i"
        by simp
      have pos: "1 \<le> fst (addOutput (removeOutput i t))"
        unfolding n using getAvailableId_spec by blast
      from below pos less have "fst (addOutput (removeOutput i t)) \<in> set (output_ids t)"
        by blast
      with less output_ids_removeOutput_superset [of t i]
      have "fst (addOutput (removeOutput i t)) \<in> set (output_ids (removeOutput i t))"
        by auto
      moreover have "fst (addOutput (removeOutput i t)) \<notin> set (output_ids (removeOutput i t))"
        unfolding n using getAvailableId_spec by blast
      ultimately show False by contradiction
    qed
    with gone le show ?thesis by blast
  qed
  have ins: "set (input_ids (snd (addInput s))) = insert (fst (addInput s)) (set (input_ids s))"
    by (auto simp: addInput_def input_ids_def Let_def)
  show ?thesis
    unfolding Let_def t_def [symmetric]
    using dt reuse getAvailableId_spec [of "output_ids t"] getAvailableId_spec [of "input_ids s"]
      output_ids_addOutput [of t] ins
    unfolding n m by blast
qed

theorem id_allocation_smallest_unused_witness:
  "distinct (output_ids example_store) \<and>
   output_ids (run_output_ops [RemoveOutput 2, RemoveOutput 1] example_store) = [3] \<and>
   fst (addOutput (run_output_ops [RemoveOutput 2, RemoveOutput 1] example_store)) = 1 \<and>
   output_ids (run_output_ops [RemoveOutput 2, RemoveOutput 1, AddOutput, AddOutput, AddOutput]
     example_store) = [1, 2, 3, 4] \<and>
   fst (addInput example_store) = 2 \<and>
   (let t = run_output_ops [RemoveOutput 2, RemoveOutput 1] example_store; n = fst (addOutput t) in
      distinct (output_ids t) \<and> 1 \<le> n \<and> n \<notin> set (output_ids t) \<and>
      set (output_ids (snd (addOutput t))) = insert n (set (output_ids t)) \<and>
      3 \<notin> set (output_ids (removeOutput 3 t)) \<and> fst (addOutput (removeOutput 3 t)) \<le> 3)"
proof -
  have h: "distinct (output_ids example_store)"
    by (simp add: example_store_def output_ids_def Store_init_def)
  have e: "output_ids (run_output_ops [RemoveOutput 2, RemoveOutput 1] example_store) = [3]"
    by (simp add: example_store_def output_ids_def Store_init_def removeOutput_def splice1_def)
  have a: "fst (addOutput (run_output_ops [RemoveOutput 2, RemoveOutput 1] example_store)) = 1"
    using e by (simp add: addOutput_def output_ids_def getAvailableId_def Let_def
      getAvailableId_loop.simps)
  have r: "output_ids (run_output_ops [RemoveOutput 2, RemoveOutput 1, AddOutput, AddOutput,
      AddOutput] example_store) = [1, 2, 3, 4]"
    by (simp add: example_store_def output_ids_def Store_init_def removeOutput_def splice1_def
      addOutput_def getAvailableId_def getAvailableId_loop.simps Let_def)
  have i: "fst (addInput example_store) = 2"
    by (simp add: example_store_def Store_init_def addInput_def getAvailableId_def
      getAvailableId_loop.simps Let_def)
  from id_allocation_smallest_unused [OF h, of "[RemoveOutput 2, RemoveOutput 1]"] h e a r i
  show ?thesis
    by (simp add: Let_def)
qed


subsection \<open>Jitter ring buffer\<close>

text \<open>A sample that has passed through a Number: only a NaN can change, and it stays a NaN.\<close>

lemma via_number_not_NaN: "\<not> is_NaN32 w \<Longrightarrow> float32_via_number w = w"
  by (simp add: float32_via_number_def)

lemma via_number_NaN:
  assumes "is_NaN32 w"
  shows "is_NaN32 (float32_via_number w)"
proof -
  have a: "(w OR 0x00400000) AND 0x7F800000 = w AND 0x7F800000"
    by (simp add: bit.conj_disj_distrib2)
  have b: "(w OR 0x00400000) AND 0x007FFFFF = (w AND 0x007FFFFF) OR 0x00400000"
    by (simp add: bit.conj_disj_distrib2)
  have c: "(w AND 0x007FFFFF) OR 0x00400000 \<noteq> 0"
    by (simp add: or_eq_0_iff)
  from assms show ?thesis
    by (simp add: float32_via_number_def is_NaN32_def a b c)
qed

lemma via_number_idem: "float32_via_number (float32_via_number w) = float32_via_number w"
proof (cases "is_NaN32 w")
  case False
  then show ?thesis by (simp add: float32_via_number_def)
next
  case True
  from via_number_NaN [OF True] True show ?thesis
    by (simp add: float32_via_number_def or.assoc)
qed

lemma map_copy_sample:
  "map (\<lambda>i. copy_sample a (i * c + ch)) [0..<frame_count a c] =
     map float32_via_number (channel_samples a c ch)"
  by (simp add: channel_samples_def copy_sample_def)

lemma mod_add_neq_aux:
  fixes r s j k :: nat
  assumes "j < k" "k < s"
  shows "(r + j) mod s \<noteq> (r + k) mod s"
proof
  assume eq: "(r + j) mod s = (r + k) mod s"
  have le: "r + j \<le> r + k" using assms by simp
  have "(r + k) mod s = (r + j) mod s" using eq by (rule sym)
  then have "s dvd (r + k) - (r + j)"
    by (simp only: mod_eq_dvd_iff_nat [OF le])
  then have "s dvd k - j" by simp
  moreover have "0 < k - j" "k - j < s" using assms by simp_all
  ultimately show False
    by (simp add: nat_dvd_not_less)
qed

lemma mod_add_neq:
  fixes r s j k :: nat
  assumes "j < s" "k < s" "j \<noteq> k"
  shows "(r + j) mod s \<noteq> (r + k) mod s"
proof (cases "j < k")
  case True
  with assms show ?thesis by (simp add: mod_add_neq_aux)
next
  case False
  with assms have "k < j" by simp
  with assms mod_add_neq_aux [of k j s r] show ?thesis by simp
qed

lemma lastn_lastn_snoc: "lastn n (lastn n xs @ [x]) = lastn n (xs @ [x])"
proof (cases "length xs \<le> n")
  case True
  then show ?thesis by (simp add: lastn_def)
next
  case False
  then have "Suc (length xs) - n = Suc (length xs - n)" by simp
  with False show ?thesis by (simp add: lastn_def)
qed

lemma fold_update_length:
  "length (fold (\<lambda>ch bs. bs[ch := g ch (bs ! ch)]) [0..<n] bs) = length bs"
  by (induction n) simp_all

lemma fold_update_nth:
  "c < length bs \<Longrightarrow>
   fold (\<lambda>ch bs. bs[ch := g ch (bs ! ch)]) [0..<n] bs ! c = (if c < n then g c (bs ! c) else bs ! c)"
proof (induction n)
  case 0
  then show ?case by simp
next
  case (Suc n)
  then show ?case
    by (auto simp: fold_update_length nth_list_update less_Suc_eq)
qed

lemma lastn_short: "length xs \<le> n \<Longrightarrow> lastn n xs = xs"
  by (simp add: lastn_def)

lemma length_lastn: "length (lastn n xs) = min n (length xs)"
  by (auto simp: lastn_def)


text \<open>The fields of the ring buffer after one pass of the push loop.\<close>

lemma push_frame_fields:
  "rb_size (push_frame a c i rb) = rb_size rb"
  "channels (push_frame a c i rb) = channels rb"
  "writePtr (push_frame a c i rb) = (writePtr rb + 1) mod rb_size rb"
  "available (push_frame a c i rb) = (if available rb < rb_size rb then available rb + 1 else available rb)"
  "readPtr (push_frame a c i rb) = (if available rb < rb_size rb then readPtr rb else (readPtr rb + 1) mod rb_size rb)"
  "length (buffers (push_frame a c i rb)) = length (buffers rb)"
  by (simp_all add: push_frame_def Let_def
      fold_update_length [where g = "\<lambda>ch b. b[writePtr rb := copy_sample a (i * c + ch)]"])

lemma push_frame_buffer:
  assumes "ch < length (buffers rb)"
  shows "buffers (push_frame a c i rb) ! ch =
     (if ch < min (channels rb) c then (buffers rb ! ch)[writePtr rb := copy_sample a (i * c + ch)]
      else buffers rb ! ch)"
  using assms
  by (simp add: push_frame_def Let_def
      fold_update_nth [where g = "\<lambda>ch b. b[writePtr rb := copy_sample a (i * c + ch)]"])

lemma push_frame_inv:
  assumes "rb_inv rb"
  shows "rb_inv (push_frame a c i rb)"
proof -
  let ?s = "rb_size rb"
  from assms have s: "0 < ?s" and r: "readPtr rb < ?s" and av: "available rb \<le> ?s"
    and w: "writePtr rb = (readPtr rb + available rb) mod ?s"
    and len: "length (buffers rb) = channels rb"
    and lens: "\<forall>b \<in> set (buffers rb). length b = ?s"
    by (simp_all add: rb_inv_def)
  have blen: "\<forall>b \<in> set (buffers (push_frame a c i rb)). length b = ?s"
  proof
    fix b assume "b \<in> set (buffers (push_frame a c i rb))"
    then obtain ch where ch: "ch < length (buffers rb)" "b = buffers (push_frame a c i rb) ! ch"
      by (auto simp: in_set_conv_nth push_frame_fields)
    from ch(1) lens have "length (buffers rb ! ch) = ?s" by simp
    with ch show "length b = ?s"
      by (simp add: push_frame_buffer)
  qed
  have wr: "(writePtr rb + 1) mod ?s =
      ((if available rb < ?s then readPtr rb else (readPtr rb + 1) mod ?s) +
       (if available rb < ?s then available rb + 1 else available rb)) mod ?s"
  proof (cases "available rb < ?s")
    case True
    then show ?thesis
      unfolding w by (simp add: mod_Suc_eq add.assoc flip: Suc_eq_plus1)
  next
    case False
    with av have "available rb = ?s" by simp
    then show ?thesis
      unfolding w by (simp add: mod_Suc_eq flip: Suc_eq_plus1)
  qed
  show ?thesis
    unfolding rb_inv_def push_frame_fields
    using s r av len blen wr by auto
qed

lemma push_frame_stored:
  assumes inv: "rb_inv rb" and ch: "ch < min (channels rb) c"
  shows "stored (push_frame a c i rb) ch =
     lastn (rb_size rb) (stored rb ch @ [copy_sample a (i * c + ch)])"
proof -
  let ?s = "rb_size rb" and ?r = "readPtr rb" and ?a = "available rb"
  let ?b = "buffers rb ! ch" and ?x = "copy_sample a (i * c + ch)"
  let ?w = "(?r + ?a) mod ?s"
  from inv have s: "0 < ?s" and r: "?r < ?s" and av: "?a \<le> ?s"
    and w: "writePtr rb = ?w"
    and len: "length (buffers rb) = channels rb"
    and lens: "\<forall>b \<in> set (buffers rb). length b = ?s"
    by (simp_all add: rb_inv_def)
  from ch len have chlen: "ch < length (buffers rb)" by simp
  with lens have blen: "length ?b = ?s" by simp
  have b': "buffers (push_frame a c i rb) ! ch = ?b[?w := ?x]"
    using ch chlen by (simp add: push_frame_buffer w)
  have wlt: "?w < ?s" using s by simp
  show ?thesis
  proof (cases "?a < ?s")
    case True
    have old: "?b[?w := ?x] ! ((?r + k) mod ?s) = ?b ! ((?r + k) mod ?s)" if "k < ?a" for k
    proof -
      from that True have "(?r + k) mod ?s \<noteq> ?w"
        by (intro mod_add_neq) simp_all
      then show ?thesis by simp
    qed
    have new: "?b[?w := ?x] ! ?w = ?x"
      using wlt blen by simp
    have "stored (push_frame a c i rb) ch =
        map (\<lambda>k. ?b[?w := ?x] ! ((?r + k) mod ?s)) [0..<?a] @ [?b[?w := ?x] ! ?w]"
      using True by (simp add: stored_def push_frame_fields b')
    also have "map (\<lambda>k. ?b[?w := ?x] ! ((?r + k) mod ?s)) [0..<?a] = stored rb ch"
      unfolding stored_def by (rule map_cong) (simp_all add: old)
    finally have "stored (push_frame a c i rb) ch = stored rb ch @ [?x]"
      by (simp only: new)
    moreover have "length (stored rb ch @ [?x]) \<le> ?s"
      using True by (simp add: stored_def)
    ultimately show ?thesis
      by (simp only: lastn_short)
  next
    case False
    with av have full: "?a = ?s" by simp
    then have wr: "?w = ?r" using r by simp
    have lenL: "length (stored (push_frame a c i rb) ch) = ?s"
      using full by (simp add: stored_def push_frame_fields)
    have lenR: "length (lastn ?s (stored rb ch @ [?x])) = ?s"
      using full by (simp add: length_lastn stored_def)
    show ?thesis
    proof (rule nth_equalityI)
      show "length (stored (push_frame a c i rb) ch) =
          length (lastn ?s (stored rb ch @ [?x]))"
        using lenL lenR by simp
    next
      fix k assume "k < length (stored (push_frame a c i rb) ch)"
      with lenL have k: "k < ?s" by simp
      have idx: "((?r + 1) mod ?s + k) mod ?s = (?r + (k + 1)) mod ?s"
        by (simp add: mod_simps add.commute add.left_commute)
      have L: "stored (push_frame a c i rb) ch ! k = ?b[?r := ?x] ! ((?r + (k + 1)) mod ?s)"
        using k full idx r by (simp add: stored_def push_frame_fields b')
      have "length (stored rb ch @ [?x]) - ?s = 1"
        using full by (simp add: stored_def)
      then have "lastn ?s (stored rb ch @ [?x]) = drop 1 (stored rb ch @ [?x])"
        by (simp only: lastn_def)
      moreover have "1 + k \<le> length (stored rb ch @ [?x])"
        using k full by (simp add: stored_def)
      ultimately have R: "lastn ?s (stored rb ch @ [?x]) ! k = (stored rb ch @ [?x]) ! (k + 1)"
        by (simp only: nth_drop add.commute)
      show "stored (push_frame a c i rb) ch ! k = lastn ?s (stored rb ch @ [?x]) ! k"
      proof (cases "k + 1 < ?s")
        case True
        then have "(?r + (k + 1)) mod ?s \<noteq> (?r + 0) mod ?s"
          using s by (intro mod_add_neq) simp_all
        then have "(?r + (k + 1)) mod ?s \<noteq> ?r" using r by simp
        then have "?b[?r := ?x] ! ((?r + (k + 1)) mod ?s) = ?b ! ((?r + (k + 1)) mod ?s)"
          by simp
        moreover have "(stored rb ch @ [?x]) ! (k + 1) = ?b ! ((?r + (k + 1)) mod ?s)"
          using True full by (simp add: stored_def nth_append)
        ultimately show ?thesis using L R by simp
      next
        case False
        with k have k1: "k + 1 = ?s" by simp
        then have "(?r + (k + 1)) mod ?s = ?r" using r by simp
        then have "?b[?r := ?x] ! ((?r + (k + 1)) mod ?s) = ?x"
          using r blen by simp
        moreover have "(stored rb ch @ [?x]) ! (k + 1) = ?x"
          using k1 full by (simp add: stored_def nth_append)
        ultimately show ?thesis using L R by simp
      qed
    qed
  qed
qed

lemma lastn_lastn_append: "lastn n (lastn n xs @ ys) = lastn n (xs @ ys)"
proof (cases "length xs \<le> n")
  case True
  then show ?thesis by (simp add: lastn_def)
next
  case False
  let ?k = "length xs - n"
  have eq: "lastn n xs @ ys = drop ?k (xs @ ys)"
    by (simp add: lastn_def)
  have "length (drop ?k (xs @ ys)) - n + ?k = length (xs @ ys) - n"
    using False by simp
  then have "lastn n (drop ?k (xs @ ys)) = lastn n (xs @ ys)"
    unfolding lastn_def by (simp only: drop_drop)
  with eq show ?thesis by simp
qed

lemma push_loop_fields:
  "rb_size (fold (push_frame a c) [0..<n] rb) = rb_size rb"
  "channels (fold (push_frame a c) [0..<n] rb) = channels rb"
  "available (fold (push_frame a c) [0..<n] rb) = min (rb_size rb) (available rb + n) \<or>
   rb_size rb < available rb"
  by (induction n) (auto simp: push_frame_fields)

lemma push_loop_inv: "rb_inv rb \<Longrightarrow> rb_inv (fold (push_frame a c) [0..<n] rb)"
  by (induction n) (simp_all add: push_frame_inv)

lemma push_loop_available:
  assumes "rb_inv rb"
  shows "available (fold (push_frame a c) [0..<n] rb) = min (rb_size rb) (available rb + n)"
proof -
  from assms have "available rb \<le> rb_size rb" by (simp add: rb_inv_def)
  with push_loop_fields(3) [of a c n rb] show ?thesis by auto
qed

lemma push_loop_stored:
  assumes "rb_inv rb" and "ch < min (channels rb) c"
  shows "stored (fold (push_frame a c) [0..<n] rb) ch =
     lastn (rb_size rb) (stored rb ch @ map (\<lambda>i. copy_sample a (i * c + ch)) [0..<n])"
proof (induction n)
  case 0
  from assms(1) have "length (stored rb ch) \<le> rb_size rb"
    by (simp add: stored_def rb_inv_def)
  then show ?case by (simp add: lastn_short)
next
  case (Suc n)
  let ?rb = "fold (push_frame a c) [0..<n] rb"
  have inv: "rb_inv ?rb" using assms(1) by (rule push_loop_inv)
  have ch: "ch < min (channels ?rb) c" using assms(2) by (simp add: push_loop_fields)
  have "stored (fold (push_frame a c) [0..<Suc n] rb) ch = stored (push_frame a c n ?rb) ch"
    by simp
  also have "\<dots> = lastn (rb_size rb) (stored ?rb ch @ [copy_sample a (n * c + ch)])"
    by (simp only: push_frame_stored [OF inv ch] push_loop_fields)
  also have "\<dots> = lastn (rb_size rb)
      ((stored rb ch @ map (\<lambda>i. copy_sample a (i * c + ch)) [0..<n]) @ [copy_sample a (n * c + ch)])"
    by (simp only: Suc.IH lastn_lastn_append)
  finally show ?case by simp
qed

text \<open>What a returning \<^verbatim>\<open>push\<close> leaves.\<close>

lemma push_Some:
  assumes "rb_inv rb" and "0 < c"
  shows "\<exists>rb'. push a c rb = Some rb' \<and> rb_inv rb' \<and> rb_size rb' = rb_size rb \<and>
     channels rb' = channels rb \<and>
     available rb' = min (rb_size rb) (available rb + frame_count a c) \<and>
     (\<forall>ch < min (channels rb) c.
        stored rb' ch =
          lastn (rb_size rb) (stored rb ch @ map float32_via_number (channel_samples a c ch)))"
  using assms
  by (simp add: push_def push_loop_inv push_loop_fields push_loop_available push_loop_stored
      map_copy_sample)


lemma fold_write_length:
  "length (fold (\<lambda>i (ob :: 'a list). ob[i := f i]) [0..<n] ob) = length ob"
  by (induction n) simp_all

lemma fold_write_nth:
  "j < length ob \<Longrightarrow>
   fold (\<lambda>i (ob :: 'a list). ob[i := f i]) [0..<n] ob ! j = (if j < n then f j else ob ! j)"
  by (induction n) (auto simp: fold_write_length nth_list_update less_Suc_eq)

text \<open>
  The state after \<open>n\<close> passes of the pop loop: each output array of a ring-buffer channel
  has received the stored samples at its first \<open>n\<close> indices, the other arrays are
  untouched, and only the read cursor of the ring buffer has moved.
\<close>

lemma pop_loop:
  assumes "readPtr rb < rb_size rb"
  shows "fold pop_frame [0..<n] (outs, rb) =
     (map (\<lambda>ch. if ch < channels rb
                then fold (\<lambda>i ob. ob[i := copy_sample (buffers rb ! ch)
                                          ((readPtr rb + i) mod rb_size rb)]) [0..<n] (outs ! ch)
                else outs ! ch) [0..<length outs],
      rb\<lparr>readPtr := (readPtr rb + n) mod rb_size rb\<rparr>)"
proof (induction n)
  case 0
  from assms show ?case by (simp add: map_nth cong: if_cong)
next
  case (Suc n)
  let ?v = "\<lambda>ch i. copy_sample (buffers rb ! ch) ((readPtr rb + i) mod rb_size rb)"
  let ?E = "\<lambda>n. map (\<lambda>ch. if ch < channels rb
                then fold (\<lambda>i ob. ob[i := ?v ch i]) [0..<n] (outs ! ch)
                else outs ! ch) [0..<length outs]"
  let ?rb = "rb\<lparr>readPtr := (readPtr rb + n) mod rb_size rb\<rparr>"
  have "fold pop_frame [0..<Suc n] (outs, rb) = pop_frame n (?E n, ?rb)"
    using Suc.IH by simp
  also have "\<dots> = (fold (\<lambda>ch os. os[ch := (os ! ch)[n := ?v ch n]]) [0..<channels rb] (?E n),
      rb\<lparr>readPtr := (readPtr rb + Suc n) mod rb_size rb\<rparr>)"
    by (simp add: pop_frame_def mod_Suc_eq)
  also have "fold (\<lambda>ch os. os[ch := (os ! ch)[n := ?v ch n]]) [0..<channels rb] (?E n) = ?E (Suc n)"
  proof (rule nth_equalityI)
    show "length (fold (\<lambda>ch os. os[ch := (os ! ch)[n := ?v ch n]]) [0..<channels rb] (?E n)) =
        length (?E (Suc n))"
      by (simp add: fold_update_length [where g = "\<lambda>ch ob. ob[n := ?v ch n]"])
  next
    fix c assume "c < length (fold (\<lambda>ch os. os[ch := (os ! ch)[n := ?v ch n]])
        [0..<channels rb] (?E n))"
    then have c: "c < length outs"
      by (simp add: fold_update_length [where g = "\<lambda>ch ob. ob[n := ?v ch n]"])
    then have "c < length (?E n)" by simp
    from fold_update_nth [OF this, where g = "\<lambda>ch ob. ob[n := ?v ch n]" and n = "channels rb"] c
    show "fold (\<lambda>ch os. os[ch := (os ! ch)[n := ?v ch n]]) [0..<channels rb] (?E n) ! c =
        ?E (Suc n) ! c"
      by simp
  qed
  finally show ?case .
qed



lemma pop_result:
  assumes inv: "rb_inv rb" and cnt: "count \<le> available rb"
    and outs: "channels rb \<le> length outputBuffers"
  shows "pop outputBuffers count rb =
     Inr (True,
          map (\<lambda>ch. if ch < channels rb
                then fold (\<lambda>i ob. ob[i := float32_via_number
                         (buffers rb ! ch ! ((readPtr rb + i) mod rb_size rb))])
                       [0..<count] (outputBuffers ! ch)
                else outputBuffers ! ch) [0..<length outputBuffers],
          rb\<lparr>readPtr := (readPtr rb + count) mod rb_size rb,
             available := available rb - count\<rparr>)"
proof -
  from inv have r: "readPtr rb < rb_size rb" and s: "0 < rb_size rb"
    and len: "length (buffers rb) = channels rb"
    and lens: "\<forall>b \<in> set (buffers rb). length b = rb_size rb"
    by (simp_all add: rb_inv_def)
  have at: "copy_sample (buffers rb ! ch) (k mod rb_size rb) =
      float32_via_number (buffers rb ! ch ! (k mod rb_size rb))"
    if "ch < channels rb" for ch k
  proof -
    from that len lens have "length (buffers rb ! ch) = rb_size rb" by simp
    with s show ?thesis by (simp add: copy_sample_def sample_at_def)
  qed
  from cnt outs show ?thesis
    by (simp add: pop_def pop_loop [OF r] at cong: if_cong)
qed

text \<open>
  Claim C6. On a ring buffer that satisfies the invariant, \<^verbatim>\<open>pop(outputBuffers, count)\<close>
  with fewer than \<open>count\<close> frames available returns false and leaves the output buffers
  and the ring buffer (cursors and fill level included) as they were. With at least
  \<open>count\<close> frames available, and an output array for every channel, it returns true; the
  read cursor has advanced by \<open>count\<close> modulo the size, the fill level has dropped by
  \<open>count\<close>, nothing else of the ring buffer has changed, and index \<open>i < count\<close> of the
  output array of every channel holds the stored sample \<open>i\<close> places after the old read
  cursor, as the copy through a Number leaves it, all other output samples being
  untouched.
\<close>

theorem pop_contract:
  assumes "rb_inv rb"
  shows "(available rb < count \<longrightarrow>
            pop outputBuffers count rb = Inr (False, outputBuffers, rb)) \<and>
         (count \<le> available rb \<and> channels rb \<le> length outputBuffers \<longrightarrow>
            (\<exists>outs. pop outputBuffers count rb =
                 Inr (True, outs, rb\<lparr>readPtr := (readPtr rb + count) mod rb_size rb,
                                     available := available rb - count\<rparr>) \<and>
               length outs = length outputBuffers \<and>
               (\<forall>ch < length outputBuffers.
                  length (outs ! ch) = length (outputBuffers ! ch) \<and>
                  (\<forall>i < length (outputBuffers ! ch).
                     outs ! ch ! i =
                       (if ch < channels rb \<and> i < count
                        then float32_via_number (buffers rb ! ch ! ((readPtr rb + i) mod rb_size rb))
                        else outputBuffers ! ch ! i)))))"
proof (intro conjI impI)
  show "pop outputBuffers count rb = Inr (False, outputBuffers, rb)" if "available rb < count"
    using that by (simp add: pop_def)
next
  assume h: "count \<le> available rb \<and> channels rb \<le> length outputBuffers"
  let ?outs = "map (\<lambda>ch. if ch < channels rb
                then fold (\<lambda>i ob. ob[i := float32_via_number
                         (buffers rb ! ch ! ((readPtr rb + i) mod rb_size rb))])
                       [0..<count] (outputBuffers ! ch)
                else outputBuffers ! ch) [0..<length outputBuffers]"
  from h assms have "pop outputBuffers count rb =
      Inr (True, ?outs, rb\<lparr>readPtr := (readPtr rb + count) mod rb_size rb,
                           available := available rb - count\<rparr>)"
    by (simp add: pop_result)
  moreover have "length ?outs = length outputBuffers" by simp
  moreover have "\<forall>ch < length outputBuffers.
      length (?outs ! ch) = length (outputBuffers ! ch) \<and>
      (\<forall>i < length (outputBuffers ! ch).
         ?outs ! ch ! i =
           (if ch < channels rb \<and> i < count
            then float32_via_number (buffers rb ! ch ! ((readPtr rb + i) mod rb_size rb))
            else outputBuffers ! ch ! i))"
    by (simp add: fold_write_length fold_write_nth)
  ultimately show "\<exists>outs. pop outputBuffers count rb =
                 Inr (True, outs, rb\<lparr>readPtr := (readPtr rb + count) mod rb_size rb,
                                     available := available rb - count\<rparr>) \<and>
               length outs = length outputBuffers \<and>
               (\<forall>ch < length outputBuffers.
                  length (outs ! ch) = length (outputBuffers ! ch) \<and>
                  (\<forall>i < length (outputBuffers ! ch).
                     outs ! ch ! i =
                       (if ch < channels rb \<and> i < count
                        then float32_via_number (buffers rb ! ch ! ((readPtr rb + i) mod rb_size rb))
                        else outputBuffers ! ch ! i)))"
    by blast
qed

theorem pop_contract_witness:
  "rb_inv example_rb \<and>
   pop [[0, 0], [0, 0]] 3 example_rb = Inr (False, [[0, 0], [0, 0]], example_rb) \<and>
   pop [[0, 0], [0, 0]] 2 example_rb =
     Inr (True, [[3, 1], [6, 4]], example_rb\<lparr>readPtr := 1, available := 0\<rparr>) \<and>
   pop [[0, 0, 9], [0, 0, 9], [7]] 1 example_rb =
     Inr (True, [[3, 0, 9], [6, 0, 9], [7]], example_rb\<lparr>readPtr := 0, available := 1\<rparr>)"
proof -
  have h: "rb_inv example_rb"
    by (simp add: rb_inv_def example_rb_def)
  have e: "pop [[0, 0], [0, 0]] 2 example_rb =
      Inr (True, [[3, 1], [6, 4]], example_rb\<lparr>readPtr := 1, available := 0\<rparr>)"
    "pop [[0, 0, 9], [0, 0, 9], [7]] 1 example_rb =
      Inr (True, [[3, 0, 9], [6, 0, 9], [7]], example_rb\<lparr>readPtr := 0, available := 1\<rparr>)"
    by (simp_all add: pop_def pop_frame_def example_rb_def sample_at_def copy_sample_def
        float32_via_number_def is_NaN32_def upt_rec)
  from pop_contract [OF h, of 3 "[[0, 0], [0, 0]]"] h e show ?thesis
    by (simp add: example_rb_def)
qed








lemma push_all_stored:
  assumes "rb_inv rb" and "\<forall>(a, c) \<in> set chunks. 0 < c"
  shows "\<exists>rb'. push_all chunks rb = Some rb' \<and> rb_inv rb' \<and> rb_size rb' = rb_size rb \<and>
     channels rb' = channels rb \<and>
     available rb' = min (rb_size rb) (available rb + total_frames chunks) \<and>
     (\<forall>ch < channels rb. (\<forall>(a, c) \<in> set chunks. ch < c) \<longrightarrow>
        stored rb' ch =
          lastn (rb_size rb) (stored rb ch @ map float32_via_number (pushed_samples chunks ch)))"
  using assms
proof (induction chunks arbitrary: rb)
  case Nil
  then have "length (stored rb ch) \<le> rb_size rb" for ch
    by (simp add: stored_def rb_inv_def)
  with Nil show ?case
    by (simp add: total_frames_def pushed_samples_def lastn_short rb_inv_def)
next
  case (Cons chunk chunks)
  obtain a c where chunk: "chunk = (a, c)" by (cases chunk)
  with Cons.prems(2) have c: "0 < c" and rest: "\<forall>(a, c) \<in> set chunks. 0 < c"
    by simp_all
  from push_Some [OF Cons.prems(1) c, of a]
  obtain rb1 where rb1: "push a c rb = Some rb1" "rb_inv rb1" "rb_size rb1 = rb_size rb"
      "channels rb1 = channels rb"
      "available rb1 = min (rb_size rb) (available rb + frame_count a c)"
      "\<forall>ch < min (channels rb) c.
         stored rb1 ch =
           lastn (rb_size rb) (stored rb ch @ map float32_via_number (channel_samples a c ch))"
    by blast
  from Cons.IH [OF rb1(2) rest]
  obtain rb' where rb': "push_all chunks rb1 = Some rb'" "rb_inv rb'" "rb_size rb' = rb_size rb1"
      "channels rb' = channels rb1"
      "available rb' = min (rb_size rb1) (available rb1 + total_frames chunks)"
      "\<forall>ch < channels rb1. (\<forall>(a, c) \<in> set chunks. ch < c) \<longrightarrow>
         stored rb' ch =
           lastn (rb_size rb1) (stored rb1 ch @ map float32_via_number (pushed_samples chunks ch))"
    by blast
  have av: "available rb' = min (rb_size rb) (available rb + total_frames (chunk # chunks))"
    unfolding rb'(5) rb1(3) rb1(5) chunk by (simp add: total_frames_def)
  have st: "stored rb' ch = lastn (rb_size rb)
      (stored rb ch @ map float32_via_number (pushed_samples (chunk # chunks) ch))"
    if ch: "ch < channels rb" and all: "\<forall>(a, c) \<in> set (chunk # chunks). ch < c" for ch
  proof -
    from all chunk have "ch < c" "\<forall>(a, c) \<in> set chunks. ch < c" by simp_all
    with ch rb1(6) rb'(6) rb1(4)
    have "stored rb' ch = lastn (rb_size rb1)
        (stored rb1 ch @ map float32_via_number (pushed_samples chunks ch))"
      and "stored rb1 ch = lastn (rb_size rb)
        (stored rb ch @ map float32_via_number (channel_samples a c ch))"
      by simp_all
    then show ?thesis
      unfolding rb1(3) by (simp add: lastn_lastn_append pushed_samples_def chunk)
  qed
  from rb1 rb' av st show ?case
    by (simp add: chunk)
qed

lemma pop_take_stored:
  assumes inv: "rb_inv rb" and cnt: "count \<le> available rb"
    and outs: "channels rb \<le> length outputBuffers"
    and ch: "ch < channels rb" and len: "count \<le> length (outputBuffers ! ch)"
    and res: "pop outputBuffers count rb = Inr (ok, outs', rb')"
  shows "take count (outs' ! ch) = map float32_via_number (take count (stored rb ch))"
proof (rule nth_equalityI)
  let ?f = "\<lambda>i. float32_via_number (buffers rb ! ch ! ((readPtr rb + i) mod rb_size rb))"
  from res pop_result [OF inv cnt outs] ch outs
  have o: "outs' ! ch = fold (\<lambda>i ob. ob[i := ?f i]) [0..<count] (outputBuffers ! ch)"
    by auto
  then have l: "length (outs' ! ch) = length (outputBuffers ! ch)"
    by (simp add: fold_write_length)
  with len cnt show "length (take count (outs' ! ch)) =
      length (map float32_via_number (take count (stored rb ch)))"
    by (simp add: stored_def)
  fix i assume "i < length (take count (outs' ! ch))"
  with l len have i: "i < count" by simp
  with len have "i < length (outputBuffers ! ch)" by simp
  from fold_write_nth [OF this, of ?f count] i cnt
  show "take count (outs' ! ch) ! i = map float32_via_number (take count (stored rb ch)) ! i"
    by (simp add: o stored_def)
qed

text \<open>
  Claim C4, as the code has it. Starting from an empty ring buffer that satisfies the
  invariant, push any sequence of arrays (each with a positive channel count) whose total
  frame count does not exceed the capacity, so that no stored frame is overwritten, and
  then pop that total frame count into output arrays that are long enough: all pushes
  return, the pop returns true and empties the buffer, and for every channel that the
  ring buffer stores and every pushed array carries, the popped samples are the pushed
  samples of that channel, in push order, each as a copy through a Number leaves it: a
  sample that is not a NaN comes back with the same bits, and a NaN comes back as a NaN.
\<close>

theorem push_pop_round_trip:
  assumes "rb_inv rb" and "available rb = 0"
    and "\<forall>(floatArray, inputChannels) \<in> set chunks. 0 < inputChannels"
    and "total_frames chunks \<le> rb_size rb"
    and "channels rb \<le> length outputBuffers"
    and "\<forall>ch < channels rb. total_frames chunks \<le> length (outputBuffers ! ch)"
  shows "\<exists>rb' outs rb''.
     push_all chunks rb = Some rb' \<and> available rb' = total_frames chunks \<and>
     pop outputBuffers (total_frames chunks) rb' = Inr (True, outs, rb'') \<and>
     available rb'' = 0 \<and>
     (\<forall>ch < channels rb.
        (\<forall>(floatArray, inputChannels) \<in> set chunks. ch < inputChannels) \<longrightarrow>
        take (total_frames chunks) (outs ! ch) =
          map float32_via_number (pushed_samples chunks ch) \<and>
        (\<forall>i < total_frames chunks.
           (\<not> is_NaN32 (pushed_samples chunks ch ! i) \<longrightarrow>
              outs ! ch ! i = pushed_samples chunks ch ! i) \<and>
           (is_NaN32 (pushed_samples chunks ch ! i) \<longrightarrow> is_NaN32 (outs ! ch ! i))))"
proof -
  let ?n = "total_frames chunks"
  from push_all_stored [OF assms(1) assms(3)]
  obtain rb' where rb': "push_all chunks rb = Some rb'" "rb_inv rb'" "rb_size rb' = rb_size rb"
      "channels rb' = channels rb"
      "available rb' = min (rb_size rb) (available rb + ?n)"
      "\<forall>ch < channels rb. (\<forall>(a, c) \<in> set chunks. ch < c) \<longrightarrow>
         stored rb' ch =
           lastn (rb_size rb) (stored rb ch @ map float32_via_number (pushed_samples chunks ch))"
    by blast
  from rb'(5) assms(2) assms(4) have av: "available rb' = ?n"
    by simp
  have empty: "stored rb ch = []" for ch
    using assms(2) by (simp add: stored_def)
  have len: "length (pushed_samples chunks ch) = ?n" for ch
    unfolding pushed_samples_def total_frames_def
    by (induction chunks) (auto simp: channel_samples_def)
  have st: "stored rb' ch = map float32_via_number (pushed_samples chunks ch)"
    if "ch < channels rb" "\<forall>(a, c) \<in> set chunks. ch < c" for ch
    using rb'(6) that assms(4) by (simp add: empty lastn_short len)
  have cnt: "?n \<le> available rb'" using av by simp
  have outs: "channels rb' \<le> length outputBuffers" using assms(5) rb'(4) by simp
  let ?outs = "map (\<lambda>ch. if ch < channels rb'
                then fold (\<lambda>i ob. ob[i := float32_via_number
                         (buffers rb' ! ch ! ((readPtr rb' + i) mod rb_size rb'))])
                       [0..<?n] (outputBuffers ! ch)
                else outputBuffers ! ch) [0..<length outputBuffers]"
  let ?rb'' = "rb'\<lparr>readPtr := (readPtr rb' + ?n) mod rb_size rb', available := available rb' - ?n\<rparr>"
  have p: "pop outputBuffers ?n rb' = Inr (True, ?outs, ?rb'')"
    by (rule pop_result [OF rb'(2) cnt outs])
  have "take ?n (?outs ! ch) = map float32_via_number (pushed_samples chunks ch) \<and>
        (\<forall>i < ?n.
           (\<not> is_NaN32 (pushed_samples chunks ch ! i) \<longrightarrow>
              ?outs ! ch ! i = pushed_samples chunks ch ! i) \<and>
           (is_NaN32 (pushed_samples chunks ch ! i) \<longrightarrow> is_NaN32 (?outs ! ch ! i)))"
    if ch: "ch < channels rb" and all: "\<forall>(a, c) \<in> set chunks. ch < c" for ch
  proof -
    from ch rb'(4) have ch': "ch < channels rb'" by simp
    from assms(6) ch have "?n \<le> length (outputBuffers ! ch)" by simp
    from pop_take_stored [OF rb'(2) cnt outs ch' this p]
    have "take ?n (?outs ! ch) = map float32_via_number (take ?n (stored rb' ch))" .
    with st [OF ch all] len [of ch]
    have t: "take ?n (?outs ! ch) = map float32_via_number (pushed_samples chunks ch)"
      by (simp add: via_number_idem)
    have "?outs ! ch ! i = float32_via_number (pushed_samples chunks ch ! i)" if "i < ?n" for i
    proof -
      from that have "?outs ! ch ! i = take ?n (?outs ! ch) ! i" by simp
      also have "\<dots> = float32_via_number (pushed_samples chunks ch ! i)"
        unfolding t using that len [of ch] by simp
      finally show ?thesis .
    qed
    with t show ?thesis
      by (simp add: via_number_not_NaN via_number_NaN)
  qed
  with rb'(1) av p show ?thesis
    by (intro exI [of _ rb'] exI [of _ ?outs] exI [of _ ?rb'']) simp
qed

theorem push_pop_round_trip_witness:
  "rb_inv example_rb \<and> available (clear example_rb) = 0 \<and>
   total_frames [([10, 0x7F800001, 11, 21], 2), ([12, 22], 2)] = 3 \<and>
   (\<exists>rb'. push_all [([10, 0x7F800001, 11, 21], 2), ([12, 22], 2)] (clear example_rb) = Some rb' \<and>
      available rb' = 3 \<and>
      pop [[0, 0, 0], [0, 0, 0]] 3 rb' =
        Inr (True, [[10, 11, 12], [0x7FC00001, 21, 22]], rb'\<lparr>readPtr := 0, available := 0\<rparr>)) \<and>
   pushed_samples [([10, 0x7F800001, 11, 21], 2), ([12, 22], 2)] 0 = [10, 11, 12] \<and>
   pushed_samples [([10, 0x7F800001, 11, 21], 2), ([12, 22], 2)] 1 = [0x7F800001, 21, 22] \<and>
   map float32_via_number [0x7F800001, 21, 22] = [0x7FC00001, 21, 22]"
proof -
  let ?chunks = "[([10, 0x7F800001, 11, 21], 2), ([12, 22], 2)] :: (sample list \<times> nat) list"
  let ?rb' = "\<lparr>rb_size = 3, channels = 2, buffers = [[10, 11, 12], [0x7FC00001, 21, 22]],
       writePtr = 0, readPtr = 0, available = 3\<rparr>"
  have h1: "rb_inv (clear example_rb)" and h0: "rb_inv example_rb"
    by code_simp+
  have h2: "available (clear example_rb) = 0"
    by code_simp
  have h3: "\<forall>(floatArray, inputChannels) \<in> set ?chunks. 0 < inputChannels"
    by simp
  have n: "total_frames ?chunks = 3"
    by code_simp
  have h4: "total_frames ?chunks \<le> rb_size (clear example_rb)"
    by code_simp
  have h5: "channels (clear example_rb) \<le> length [[0, 0, 0], [0, 0, 0 :: sample]]"
    by code_simp
  have h6: "\<forall>ch < channels (clear example_rb).
      total_frames ?chunks \<le> length ([[0, 0, 0], [0, 0, 0 :: sample]] ! ch)"
    unfolding n by (simp add: clear_def example_rb_def less_Suc_eq numeral_2_eq_2)
  have p: "push_all ?chunks (clear example_rb) = Some ?rb'"
    by code_simp
  have q: "pop [[0, 0, 0], [0, 0, 0]] 3 ?rb' =
      Inr (True, [[10, 11, 12], [0x7FC00001, 21, 22]], ?rb'\<lparr>readPtr := 0, available := 0\<rparr>)"
    by code_simp
  have s: "pushed_samples ?chunks 0 = [10, 11, 12]"
    "pushed_samples ?chunks 1 = [0x7F800001, 21, 22]"
    "map float32_via_number [0x7F800001, 21, 22] = [0x7FC00001, 21, 22]"
    by code_simp+
  from push_pop_round_trip [OF h1 h2 h3 h4 h5 h6]
  obtain rb' outs rb'' where r: "push_all ?chunks (clear example_rb) = Some rb'"
      "available rb' = total_frames ?chunks"
      "pop [[0, 0, 0], [0, 0, 0]] (total_frames ?chunks) rb' = Inr (True, outs, rb'')"
    by blast
  from r(1) p have "rb' = ?rb'" by simp
  with r(2) n have av: "available ?rb' = 3" by simp
  from p av q
  have "\<exists>rb'. push_all ?chunks (clear example_rb) = Some rb' \<and> available rb' = 3 \<and>
      pop [[0, 0, 0], [0, 0, 0]] 3 rb' =
        Inr (True, [[10, 11, 12], [0x7FC00001, 21, 22]], rb'\<lparr>readPtr := 0, available := 0\<rparr>)"
    by blast
  with h0 h2 n s show ?thesis
    by blast
qed

text \<open>
  Claim C4 as stated fails: a pushed signalling NaN is popped with other bits.
\<close>

theorem signalling_NaN_changes_bits:
  "rb_inv (RingBuffer_new 2 2) \<and> available (RingBuffer_new 2 2) = 0 \<and>
   total_frames [([0x7F800001, 5], 2)] = 1 \<and>
   push_all [([0x7F800001, 5], 2)] (RingBuffer_new 2 2) =
     Some \<lparr>rb_size = 2, channels = 2, buffers = [[0x7FC00001, 0], [5, 0]],
            writePtr = 1, readPtr = 0, available = 1\<rparr> \<and>
   pop [[0], [0]] 1 \<lparr>rb_size = 2, channels = 2, buffers = [[0x7FC00001, 0], [5, 0]],
                       writePtr = 1, readPtr = 0, available = 1\<rparr> =
     Inr (True, [[0x7FC00001], [5]],
          \<lparr>rb_size = 2, channels = 2, buffers = [[0x7FC00001, 0], [5, 0]],
            writePtr = 1, readPtr = 1, available = 0\<rparr>) \<and>
   pushed_samples [([0x7F800001, 5], 2)] 0 = [0x7F800001] \<and>
   [0x7FC00001 :: sample] \<noteq> pushed_samples [([0x7F800001, 5], 2)] 0"
  by code_simp


subsection \<open>Handshake decoder\<close>

lemma handleAudioData_aligned:
  assumes "byteOffset buffer mod 4 = 0"
  shows "handleAudioData buffer d =
     Inr (if length (bytes buffer) < 8 then d
          else d\<lparr>audioCalls := audioCalls d @
                 [(float32_array (take (length (bytes buffer) div 8 * 8) (bytes buffer)),
                   sampleRate d)]\<rparr>)"
proof (cases "length (bytes buffer) mod 8 = 0")
  case True
  then have "length (bytes buffer) div 8 * 8 = length (bytes buffer)"
    by (metis dvd_div_mult_self mod_0_imp_dvd)
  with True assms show ?thesis
    by (cases "bytes buffer = []") (auto simp: handleAudioData_def Let_def)
next
  case False
  with assms show ?thesis
    by (auto simp: handleAudioData_def Let_def slice_to_def)
qed

lemma readUInt32LE_bound: "readUInt32LE buf offset < 2 ^ 32"
proof -
  have b: "unat x < 256" for x :: byte
    using unsigned_less [of x, where 'a = nat] by simp
  from b [of "buf ! offset"] b [of "buf ! (offset + 1)"] b [of "buf ! (offset + 2)"]
    b [of "buf ! (offset + 3)"]
  show ?thesis
    unfolding readUInt32LE_def by simp
qed

lemma handshake_step:
  assumes "\<not> socketDestroyed d" and "\<not> isHeaderReceived d"
    and acc: "accumulate (headerBuffer d) buffer = \<lparr>byteOffset = 0, bytes = j\<rparr>"
    and len: "8 \<le> length j"
  shows "on_data buffer d =
     (if take 4 j = UXD1
      then Inr (d\<lparr>headerBuffer := Buffer_alloc0,
                  sampleRate := readUInt32LE j 4,
                  isHeaderReceived := True,
                  statusReports := statusReports d @ [(True, Some (readUInt32LE j 4))],
                  audioCalls := audioCalls d @
                    (if length j < 16 then []
                     else [(float32_array (take ((length j - 8) div 8 * 8) (drop 8 j)),
                            readUInt32LE j 4)])\<rparr>)
      else Inr (d\<lparr>headerBuffer := Buffer_alloc0, socketDestroyed := True\<rparr>))"
proof -
  define remaining :: node_buffer where "remaining = \<lparr>byteOffset = 8, bytes = drop 8 j\<rparr>"
  from len have rem: "slice_from 8 \<lparr>byteOffset = 0, bytes = j\<rparr> = remaining"
    by (simp add: slice_from_def min_def remaining_def)
  have al: "byteOffset remaining mod 4 = 0"
    by (simp add: remaining_def)
  have r: "bytes remaining = drop 8 j" "length (bytes remaining) = length j - 8"
    by (simp_all add: remaining_def)
  show ?thesis
  proof (cases "length j = 8")
    case True
    with assms(1,2) show ?thesis
      by (simp add: on_data_def handleHandshake_def Let_def acc rem r)
  next
    case False
    with len have "8 < length j" by simp
    moreover have "length j - 8 < 8 \<longleftrightarrow> length j < 16"
      using len by auto
    ultimately show ?thesis
      using assms(1,2)
      by (simp add: on_data_def handleHandshake_def Let_def acc rem
          handleAudioData_aligned [OF al] r)
  qed
qed

text \<open>
  While the bytes received so far for the header and the new bytes together are at most
  1024, the decoder does what the protocol asks: a header with the magic makes it
  stream at the rate of bytes 4 to 7, read little-endian, and the whole frames beyond the
  header go to the engine; any other magic destroys the socket.
\<close>

lemma handshake_within_cap:
  assumes "\<not> socketDestroyed d" and "\<not> isHeaderReceived d"
    and "8 \<le> length (bytes (headerBuffer d) @ bytes buffer)"
    and "length (bytes (headerBuffer d) @ bytes buffer) \<le> 1024"
  shows "on_data buffer d =
     (if take 4 (bytes (headerBuffer d) @ bytes buffer) = UXD1
      then Inr (d\<lparr>headerBuffer := Buffer_alloc0,
                  sampleRate := readUInt32LE (bytes (headerBuffer d) @ bytes buffer) 4,
                  isHeaderReceived := True,
                  statusReports := statusReports d @
                    [(True, Some (readUInt32LE (bytes (headerBuffer d) @ bytes buffer) 4))],
                  audioCalls := audioCalls d @
                    (if length (bytes (headerBuffer d) @ bytes buffer) < 16 then []
                     else [(float32_array
                              (take ((length (bytes (headerBuffer d) @ bytes buffer) - 8)
                                       div 8 * 8)
                                 (drop 8 (bytes (headerBuffer d) @ bytes buffer))),
                            readUInt32LE (bytes (headerBuffer d) @ bytes buffer) 4)])\<rparr>)
      else Inr (d\<lparr>headerBuffer := Buffer_alloc0, socketDestroyed := True\<rparr>))"
proof -
  from assms(4) have "accumulate (headerBuffer d) buffer =
      \<lparr>byteOffset = 0, bytes = bytes (headerBuffer d) @ bytes buffer\<rparr>"
    by (simp add: accumulate_def Buffer_concat_def)
  from handshake_step [OF assms(1,2) this assms(3)] show ?thesis .
qed

lemma handshake_48000:
  "on_data \<lparr>byteOffset = 0, bytes = UXD1 @ [0x80, 0xBB, 0x00, 0x00]\<rparr>
     (on_connection DirectServer_init) =
   Inr ((on_connection DirectServer_init)\<lparr>sampleRate := 48000, isHeaderReceived := True,
          statusReports := [(False, None), (True, Some 48000)]\<rparr>)"
  by (simp add: on_data_def handleHandshake_def accumulate_def Buffer_concat_def
      on_connection_def DirectServer_init_def Buffer_alloc0_def UXD1_def readUInt32LE_def
      slice_from_def Let_def)

text \<open>
  Claim C7 at a failing input. The first data event of a connection carries the header
  \<^verbatim>\<open>"UXD1"\<close> with the rate 48000 and 1024 bytes of audio behind it. The accumulation
  keeps the last 1024 of the 1032 bytes, which cuts the header off; the first four bytes
  kept are audio, so the decoder destroys the socket, stays in the state that awaits the
  header, publishes no rate and hands no audio on.
\<close>

theorem header_cut_off_by_cap:
  "take 4 (bytes header_and_audio) = UXD1 \<and>
   readUInt32LE (bytes header_and_audio) 4 = 48000 \<and>
   length (bytes header_and_audio) = 1032 \<and>
   on_data header_and_audio (on_connection DirectServer_init) =
     Inr \<lparr>isHeaderReceived = False, headerBuffer = Buffer_alloc0, sampleRate = 44100,
          socketDestroyed = True, statusReports = [(False, None)], audioCalls = []\<rparr>"
proof -
  have kept: "accumulate Buffer_alloc0 header_and_audio =
      \<lparr>byteOffset = 8, bytes = replicate 1024 0\<rparr>"
    by (simp add: accumulate_def Buffer_concat_def Buffer_alloc0_def header_and_audio_def
        slice_last_def slice_from_def UXD1_def)
  have "take 4 (replicate 1024 (0 :: byte)) ! 0 = 0" and "UXD1 ! 0 \<noteq> (0 :: byte)"
    by (simp_all add: UXD1_def)
  then have magic: "take 4 (replicate 1024 (0 :: byte)) \<noteq> UXD1"
    by metis
  have "on_data header_and_audio (on_connection DirectServer_init) =
     Inr \<lparr>isHeaderReceived = False, headerBuffer = Buffer_alloc0, sampleRate = 44100,
          socketDestroyed = True, statusReports = [(False, None)], audioCalls = []\<rparr>"
    using magic
    by (simp add: on_data_def handleHandshake_def on_connection_def DirectServer_init_def
        kept Let_def)
  moreover have "take 4 (bytes header_and_audio) = UXD1"
    "readUInt32LE (bytes header_and_audio) 4 = 48000"
    "length (bytes header_and_audio) = 1032"
    by (simp_all add: header_and_audio_def UXD1_def readUInt32LE_def)
  ultimately show ?thesis by blast
qed

text \<open>
  When more than 1024 bytes are accumulated and the bytes kept start with the magic, the
  bytes beyond the header are a slice at an offset that need not be a multiple of 4: the
  streaming path then throws, after the decoder has switched to streaming and published
  the rate, with the accumulation buffer not emptied and no audio handed on.
\<close>

lemma misaligned_remainder_throws:
  "on_data stray_byte_and_header (on_connection DirectServer_init) =
     Inl (RangeError,
          \<lparr>isHeaderReceived = True,
           headerBuffer = \<lparr>byteOffset = 1,
             bytes = UXD1 @ [0x80, 0xBB, 0x00, 0x00] @ replicate 1016 0\<rparr>,
           sampleRate = 48000, socketDestroyed = False,
           statusReports = [(False, None), (True, Some 48000)], audioCalls = []\<rparr>)"
proof -
  define hb :: node_buffer
    where "hb = \<lparr>byteOffset = 1, bytes = UXD1 @ [0x80, 0xBB, 0x00, 0x00] @ replicate 1016 0\<rparr>"
  define remaining :: node_buffer
    where "remaining = \<lparr>byteOffset = 9, bytes = replicate 1016 0\<rparr>"
  have kept: "accumulate Buffer_alloc0 stray_byte_and_header = hb"
    by (simp add: accumulate_def Buffer_concat_def Buffer_alloc0_def stray_byte_and_header_def
        slice_last_def slice_from_def UXD1_def hb_def)
  have rem: "slice_from 8 hb = remaining"
    by (simp add: slice_from_def UXD1_def hb_def remaining_def)
  have thrown: "handleAudioData remaining d = Inl (RangeError, d)" for d
    by (simp add: handleAudioData_def Let_def remaining_def)
  have hb: "8 \<le> length (bytes hb)" "take 4 (bytes hb) = UXD1" "readUInt32LE (bytes hb) 4 = 48000"
    by (simp_all add: hb_def UXD1_def readUInt32LE_def)
  have nonempty: "0 < length (bytes remaining)"
    by (simp add: remaining_def)
  have "on_data stray_byte_and_header (on_connection DirectServer_init) =
     Inl (RangeError,
          \<lparr>isHeaderReceived = True, headerBuffer = hb,
           sampleRate = 48000, socketDestroyed = False,
           statusReports = [(False, None), (True, Some 48000)], audioCalls = []\<rparr>)"
    using hb nonempty
    by (simp add: on_data_def handleHandshake_def on_connection_def DirectServer_init_def
        kept rem thrown Let_def)
  then show ?thesis
    by (simp only: hb_def)
qed


subsection \<open>Gain automation\<close>

lemma map_of_map_entries:
  "map_of (map (\<lambda>(k, v). (k, f k v)) xs) k = map_option (f k) (map_of xs k)"
  by (induction xs) auto

lemma target_of_setTargetAtTime: "target_of (setTargetAtTime target t c p) = Some target"
  by (simp add: target_of_def setTargetAtTime_def)

text \<open>
  Claim C3, as the code has it. After \<^verbatim>\<open>updateAllGains()\<close>, on every strip the target
  of the direct gain is the direct volume times the direct-route flag (1 if the output
  is in the direct routing set, else 0) times the direct-mute flag (0 if muted, else 1),
  and the target of the gain node of every hardware input found in the store is the
  input's volume if the output is in the input's routing list and 0 otherwise. The
  input's mute flag does not occur: unrouting drives the target to 0 whatever the
  volume, muting an input does not change it.
\<close>

theorem gain_targets_after_recomputation:
  assumes "map_of (strips e) outputId = Some stripNodes"
  shows "direct_target (updateAllGains s e) outputId =
           Some (directGain s * (if outputId \<in> directRoutingSet s then 1 else 0) *
                 (if directMuted s then 0 else 1)) \<and>
         (\<forall>inputId gainNode inputData.
            map_of (hwInputGains stripNodes) inputId = Some gainNode \<and>
            find (\<lambda>i. in_id i = inputId) (inputs s) = Some inputData \<longrightarrow>
            hw_target (updateAllGains s e) outputId inputId =
              Some (if outputId \<in> set (routing inputData) then in_volume inputData else 0))"
proof -
  have look: "map_of (strips (updateAllGains s e)) outputId =
      Some (updateAllGains_strip s outputId stripNodes)"
    by (simp add: updateAllGains_def assms
        map_of_map_entries [where f = "updateAllGains_strip s"])
  have d: "direct_target (updateAllGains s e) outputId =
      Some (directGain s * (if outputId \<in> directRoutingSet s then 1 else 0) *
            (if directMuted s then 0 else 1))"
    by (simp add: direct_target_def look updateAllGains_strip_def Let_def
        target_of_setTargetAtTime)
  have h: "hw_target (updateAllGains s e) outputId inputId =
      Some (if outputId \<in> set (routing inputData) then in_volume inputData else 0)"
    if g: "map_of (hwInputGains stripNodes) inputId = Some gainNode"
      and f: "find (\<lambda>i. in_id i = inputId) (inputs s) = Some inputData"
    for inputId gainNode inputData
  proof -
    have "map_of (hwInputGains (updateAllGains_strip s outputId stripNodes)) inputId =
        Some (updateAllGains_input s outputId stripNodes inputId gainNode)"
      by (simp add: updateAllGains_strip_def g
          map_of_map_entries [where f = "updateAllGains_input s outputId stripNodes"])
    then show ?thesis
      by (simp add: hw_target_def look updateAllGains_input_def f Let_def
          target_of_setTargetAtTime)
  qed
  from d h show ?thesis by blast
qed

theorem gain_targets_after_recomputation_witness:
  "map_of (strips example_engine) 1 = Some (example_strip 1 0) \<and>
   map_of (hwInputGains (example_strip 1 0)) 1 = Some \<lparr>param_value = 0, automation = None\<rparr> \<and>
   find (\<lambda>i. in_id i = 1) (inputs muted_store) =
     Some \<lparr>in_id = 1, in_deviceId = ''default'', in_volume = 0.8, in_isMuted = True,
           routing = [1]\<rparr> \<and>
   hw_target (updateAllGains muted_store example_engine) 1 1 = Some 0.8 \<and>
   hw_target (updateAllGains muted_store example_engine) 2 1 = Some 0 \<and>
   direct_target (updateAllGains muted_store example_engine) 1 = Some 1 \<and>
   direct_target (updateAllGains (muted_store\<lparr>directMuted := True\<rparr>) example_engine) 1 = Some 0"
proof -
  let ?inp = "\<lparr>in_id = 1, in_deviceId = ''default'', in_volume = 0.8, in_isMuted = True,
           routing = [1]\<rparr>"
  let ?g = "\<lparr>param_value = 0, automation = None\<rparr>"
  have h1: "map_of (strips example_engine) 1 = Some (example_strip 1 0)"
    and h2: "map_of (strips example_engine) 2 = Some (example_strip 1 0)"
    by (simp_all add: example_engine_def)
  have g: "map_of (hwInputGains (example_strip 1 0)) 1 = Some ?g"
    by (simp add: example_strip_def)
  have f: "find (\<lambda>i. in_id i = 1) (inputs muted_store) = Some ?inp"
    "find (\<lambda>i. in_id i = 1) (inputs (muted_store\<lparr>directMuted := True\<rparr>)) = Some ?inp"
    by (simp_all add: muted_store_def)
  have dir: "directGain muted_store = 1" "1 \<in> directRoutingSet muted_store"
    "\<not> directMuted muted_store"
    by (simp_all add: muted_store_def example_store_def Store_init_def)
  from gain_targets_after_recomputation [OF h1, of muted_store] g f(1) dir
  have a: "hw_target (updateAllGains muted_store example_engine) 1 1 = Some 0.8"
    and b: "direct_target (updateAllGains muted_store example_engine) 1 = Some 1"
    by simp_all
  from gain_targets_after_recomputation [OF h2, of muted_store] g f(1)
  have c: "hw_target (updateAllGains muted_store example_engine) 2 1 = Some 0"
    by simp
  from gain_targets_after_recomputation [OF h1, of "muted_store\<lparr>directMuted := True\<rparr>"]
  have d: "direct_target (updateAllGains (muted_store\<lparr>directMuted := True\<rparr>) example_engine) 1 = Some 0"
    by simp
  from h1 g f(1) a b c d show ?thesis
    by blast
qed

text \<open>
  Claim C3 as stated fails: the gain target of a muted, routed input is its volume, not 0.
\<close>

theorem muted_input_keeps_its_gain:
  "in_isMuted (hd (inputs muted_store)) \<and> 1 \<in> set (routing (hd (inputs muted_store))) \<and>
   in_volume (hd (inputs muted_store)) = 0.8 \<and>
   hw_target (updateAllGains muted_store example_engine) 1 1 = Some 0.8 \<and>
   hw_target (updateAllGains muted_store example_engine) 1 1 \<noteq>
     Some (if 1 \<in> set (routing (hd (inputs muted_store)))
           then (if in_isMuted (hd (inputs muted_store)) then 0
                 else in_volume (hd (inputs muted_store)))
           else 0)"
  by (simp add: muted_store_def example_engine_def example_strip_def updateAllGains_def
      updateAllGains_strip_def updateAllGains_input_def hw_target_def target_of_def
      setTargetAtTime_def)

subsection \<open>Scheduler\<close>

lemma userBuffer_of_ge: "0.05 \<le> userBuffer_of setting"
  by (simp add: userBuffer_of_def)

text \<open>
  The engine that schedules every received array at once corrects an underrun to the
  clock plus the target buffer plus 50 ms, and an overrun beyond three target buffers
  plus 200 ms to the clock plus the target buffer.
\<close>

lemma processDirectAudio_underrun:
  assumes "nextAudioTime nodes < ctx_currentTime nodes"
  shows "last (started (processDirectAudio_strip s floatArray rate nodes)) =
     (ctx_currentTime nodes + userBuffer_of (directBuffer s) + 0.05,
      [map (\<lambda>i. copy_sample floatArray (i * 2)) [0..<length floatArray div 2],
       map (\<lambda>i. copy_sample floatArray (i * 2 + 1)) [0..<length floatArray div 2]])"
proof -
  have "0.05 \<le> userBuffer_of (directBuffer s)" by (rule userBuffer_of_ge)
  then have "\<not> ctx_currentTime nodes + (userBuffer_of (directBuffer s) * 3 + 0.2) <
      ctx_currentTime nodes + userBuffer_of (directBuffer s) + 0.05"
    by simp
  with assms show ?thesis
    by (simp add: processDirectAudio_strip_def Let_def)
qed

lemma processDirectAudio_overrun:
  assumes "ctx_currentTime nodes + (3 * userBuffer_of (directBuffer s) + 0.2) < nextAudioTime nodes"
  shows "fst (last (started (processDirectAudio_strip s floatArray rate nodes))) =
     ctx_currentTime nodes + userBuffer_of (directBuffer s)"
proof -
  have "0.05 \<le> userBuffer_of (directBuffer s)" by (rule userBuffer_of_ge)
  with assms have "\<not> nextAudioTime nodes < ctx_currentTime nodes"
    by simp
  with assms show ?thesis
    by (simp add: processDirectAudio_strip_def Let_def mult.commute)
qed

text \<open>What \<^verbatim>\<open>scheduleAudio()\<close> does with one strip, for every cursor.\<close>

lemma scheduleAudio_strip_start:
  "fst (last (started (fst (scheduleAudio_strip userBufferSec tempBuffers nodes s)))) =
     (if nextAudioTime nodes < ctx_currentTime nodes
      then ctx_currentTime nodes + userBufferSec else nextAudioTime nodes)"
  by (simp add: scheduleAudio_strip_def Let_def)

text \<open>
  Claim C1 at a failing input. A strip whose cursor 0 is behind the clock 1, with the
  target buffer 0.1: \<^verbatim>\<open>scheduleAudio()\<close> starts the chunk at 1.1, the clock plus the
  target buffer, and not at 1.15, the clock plus the target buffer plus 50 ms.
\<close>

theorem scheduleAudio_underrun_without_margin:
  "nextAudioTime (example_strip 1 0) < ctx_currentTime (example_strip 1 0) \<and>
   userBuffer_of (directBuffer Store_init) = 0.1 \<and>
   map fst (started (fst (scheduleAudio_strip (userBuffer_of (directBuffer Store_init))
     [[0], [0]] (example_strip 1 0) Store_init))) = [1.1] \<and>
   ctx_currentTime (example_strip 1 0) + userBuffer_of (directBuffer Store_init) + 0.05 = 1.15 \<and>
   map fst (started (fst (scheduleAudio_strip (userBuffer_of (directBuffer Store_init))
     [[0], [0]] (example_strip 1 0) Store_init))) \<noteq>
     [ctx_currentTime (example_strip 1 0) + userBuffer_of (directBuffer Store_init) + 0.05]"
  by (simp add: example_strip_def Store_init_def userBuffer_of_def scheduleAudio_strip_def
      Let_def)

text \<open>
  Claim C2 at a failing input. A strip whose cursor 2 is ahead of the clock 1 by more
  than the reset threshold 0.5, with the target buffer 0.1: \<^verbatim>\<open>scheduleAudio()\<close>
  starts the chunk at the cursor 2 and does not reset it to 1.1, the clock plus the
  target buffer.
\<close>

theorem scheduleAudio_overrun_without_reset:
  "ctx_currentTime (example_strip 1 2) + (3 * userBuffer_of (directBuffer Store_init) + 0.2)
     < nextAudioTime (example_strip 1 2) \<and>
   userBuffer_of (directBuffer Store_init) = 0.1 \<and>
   map fst (started (fst (scheduleAudio_strip (userBuffer_of (directBuffer Store_init))
     [[0], [0]] (example_strip 1 2) Store_init))) = [2] \<and>
   ctx_currentTime (example_strip 1 2) + userBuffer_of (directBuffer Store_init) = 1.1 \<and>
   map fst (started (fst (scheduleAudio_strip (userBuffer_of (directBuffer Store_init))
     [[0], [0]] (example_strip 1 2) Store_init))) \<noteq>
     [ctx_currentTime (example_strip 1 2) + userBuffer_of (directBuffer Store_init)]"
  by (simp add: example_strip_def Store_init_def userBuffer_of_def scheduleAudio_strip_def
      Let_def)












end
